theory Spec2Isabelle
  imports Main "HOL-Library.Word" "HOL-Library.Multiset"
begin

section \<open>Ford-Johnson merge-insert sort (ex02/PmergeMe.cpp, ex02_basic/PmergeMe.cpp)\<close>

text \<open>
  The elements of the sorted containers are C++ \<open>int\<close> values: 32-bit words, compared as
  two's complement numbers (\<open><s\<close>, \<open>\<le>s\<close>). The \<open>size_t\<close> values that the code computes
  with (the Jacobsthal accumulators) are 64-bit words and wrap around. Positions in a
  container and the counters that run over them are \<open>nat\<close> (for \<open>size_t\<close> counters) or
  \<open>int\<close> (for \<open>int\<close> counters, which run down to \<open>left - 1\<close>); \<open>int n = arr.size()\<close> is
  the exact length, as it is for every vector of fewer than \<open>2 ^ 31\<close> elements.
  \<open>std::vector\<close> and \<open>std::deque\<close> are lists: \<open>push_back\<close> appends, \<open>v[i]\<close> is \<open>v ! i\<close>,
  \<open>v.insert(pos, x)\<close> is \<open>insert_at\<close>.

  A function that may read outside its container, or whose loop may not end, returns an
  \<open>option\<close>: \<open>None\<close> stands for "no normal return".
\<close>

type_synonym int32 = "32 word"
type_synonym size_t = "64 word"

subsection \<open>jacobsthal\<close>

text \<open>
  The \<open>for (size_t i = 2; i <= n; ++i)\<close> loop of \<open>jacobsthal\<close>, with its three
  accumulators. The counter \<open>i\<close> stops at \<open>n + 1\<close>.
\<close>

function jacobsthal_loop :: "nat \<Rightarrow> nat \<Rightarrow> size_t \<Rightarrow> size_t \<Rightarrow> size_t \<Rightarrow> size_t" where
  "jacobsthal_loop i n prev2 prev1 current =
     (if i \<le> n
      then (let current' = prev1 + 2 * prev2
            in jacobsthal_loop (i + 1) n prev1 current' current')
      else current)"
  by pat_completeness auto
termination
  by (relation "measure (\<lambda>(i, n, prev2, prev1, current). n + 1 - i)") auto

declare jacobsthal_loop.simps [simp del]

definition jacobsthal :: "nat \<Rightarrow> size_t" where
  "jacobsthal n =
     (if n = 0 then 0
      else if n = 1 then 1
      else jacobsthal_loop 2 n 0 1 1)"

subsection \<open>generateJacobsthalInsertionOrder\<close>

text \<open>
  The \<open>while (true)\<close> loop that collects the thresholds. It ends when a Jacobsthal number
  reaches \<open>pendSize\<close>; the comparison is between \<open>size_t\<close> values.
\<close>

partial_function (option) jacobsthalNums_loop :: "nat \<Rightarrow> nat \<Rightarrow> nat list \<Rightarrow> nat list option" where
  "jacobsthalNums_loop pendSize index jacobsthalNums =
     (let jNum = unat (jacobsthal index)
      in if jNum \<ge> pendSize
         then Some (jacobsthalNums @ [pendSize - 1])
         else jacobsthalNums_loop pendSize (index + 1) (jacobsthalNums @ [jNum]))"

declare jacobsthalNums_loop.simps [code]

text \<open>
  The inner loop \<open>for (size_t j = currentJacob; j > prevJacob; --j)\<close>, on the state
  \<open>order\<close>, \<open>inserted\<close>.
\<close>

function group_loop :: "nat \<Rightarrow> nat \<Rightarrow> nat \<Rightarrow> nat list \<Rightarrow> bool list \<Rightarrow> nat list \<times> bool list" where
  "group_loop pendSize prevJacob j order inserted =
     (if j > prevJacob
      then (if j < pendSize \<and> \<not> inserted ! j
            then group_loop pendSize prevJacob (j - 1) (order @ [j]) (inserted[j := True])
            else group_loop pendSize prevJacob (j - 1) order inserted)
      else (order, inserted))"
  by pat_completeness auto
termination
  by (relation "measure (\<lambda>(pendSize, prevJacob, j, order, inserted). j)") auto

text \<open>The loop over \<open>jacobsthalNums\<close>, which carries \<open>prevJacob\<close>.\<close>

function groups_loop :: "nat \<Rightarrow> nat list \<Rightarrow> nat \<Rightarrow> nat list \<Rightarrow> bool list \<Rightarrow> nat list \<times> bool list" where
  "groups_loop pendSize [] prevJacob order inserted = (order, inserted)"
| "groups_loop pendSize (currentJacob # rest) prevJacob order inserted =
     (case group_loop pendSize prevJacob currentJacob order inserted of
        (order', inserted') \<Rightarrow> groups_loop pendSize rest currentJacob order' inserted')"
  by pat_completeness auto
termination
  by (relation "measure (\<lambda>(pendSize, jacobsthalNums, prevJacob, order, inserted). length jacobsthalNums)") auto

text \<open>The last loop, \<open>for (size_t i = 0; i < pendSize; ++i)\<close>.\<close>

function remaining_loop :: "nat \<Rightarrow> nat \<Rightarrow> bool list \<Rightarrow> nat list \<Rightarrow> nat list" where
  "remaining_loop pendSize i inserted order =
     (if i < pendSize
      then remaining_loop pendSize (i + 1) inserted (if \<not> inserted ! i then order @ [i] else order)
      else order)"
  by pat_completeness auto
termination
  by (relation "measure (\<lambda>(pendSize, i, inserted, order). pendSize - i)") auto

declare group_loop.simps [simp del] remaining_loop.simps [simp del]

text \<open>
  \<open>order\<close> is the in-out parameter: it is returned as it came when \<open>pendSize\<close> is 0, and
  cleared otherwise.
\<close>

definition generateJacobsthalInsertionOrder :: "nat \<Rightarrow> nat list \<Rightarrow> nat list option" where
  "generateJacobsthalInsertionOrder pendSize order =
     (if pendSize = 0 then Some order
      else case jacobsthalNums_loop pendSize 3 [] of
             None \<Rightarrow> None
           | Some jacobsthalNums \<Rightarrow>
               (case groups_loop pendSize jacobsthalNums 0 [] (replicate pendSize False) of
                  (order', inserted) \<Rightarrow> Some (remaining_loop pendSize 0 inserted order')))"

subsection \<open>insertionSortVector\<close>

text \<open>
  The insertion loops of the source (in \<open>insertionSortVector\<close>, in \<open>insertionSortDeque\<close> and
  the loop that sorts the pairs) have one shape; it is written once, over the element
  type and the comparison \<open>gt a key\<close> that stands for \<open>arr[j] > key\<close>.
  \<open>insertionSort_while\<close> is the \<open>while (j >= left && arr[j] > key)\<close> loop; it returns the
  array and the final \<open>j\<close>. A read or write outside the array is \<open>None\<close>.
\<close>

function insertionSort_while ::
  "('a \<Rightarrow> 'a \<Rightarrow> bool) \<Rightarrow> 'a list \<Rightarrow> int \<Rightarrow> int \<Rightarrow> 'a \<Rightarrow> ('a list \<times> int) option" where
  "insertionSort_while gt arr left j key =
     (if j \<ge> left
      then (if 0 \<le> j \<and> j < int (length arr)
            then (if gt (arr ! nat j) key
                  then (if j + 1 < int (length arr)
                        then insertionSort_while gt (arr[nat (j + 1) := arr ! nat j]) left (j - 1) key
                        else None)
                  else Some (arr, j))
            else None)
      else Some (arr, j))"
  by pat_completeness auto
termination
  by (relation "measure (\<lambda>(gt, arr, left, j, key). nat (j - left + 1))") auto

function insertionSort_for ::
  "('a \<Rightarrow> 'a \<Rightarrow> bool) \<Rightarrow> 'a list \<Rightarrow> int \<Rightarrow> int \<Rightarrow> int \<Rightarrow> 'a list option" where
  "insertionSort_for gt arr left right i =
     (if i \<le> right
      then (if 0 \<le> i \<and> i < int (length arr)
            then (let key = arr ! nat i
                  in case insertionSort_while gt arr left (i - 1) key of
                       None \<Rightarrow> None
                     | Some (arr', j) \<Rightarrow>
                         if 0 \<le> j + 1 \<and> j + 1 < int (length arr')
                         then insertionSort_for gt (arr'[nat (j + 1) := key]) left right (i + 1)
                         else None)
            else None)
      else Some arr)"
  by pat_completeness auto
termination
  by (relation "measure (\<lambda>(gt, arr, left, right, i). nat (right + 1 - i))") auto

declare insertionSort_while.simps [simp del] insertionSort_for.simps [simp del]

definition int_gt :: "int32 \<Rightarrow> int32 \<Rightarrow> bool" where
  "int_gt a b = (b <s a)"

definition insertionSortVector :: "int32 list \<Rightarrow> int \<Rightarrow> int \<Rightarrow> int32 list option" where
  "insertionSortVector arr left right = insertionSort_for int_gt arr left right (left + 1)"

subsection \<open>mergeInsertSortVector\<close>

text \<open>
  The pairing loop \<open>for (i = 0; i + 1 < n; i += 2)\<close>. It returns the pairs and the final
  \<open>i\<close>, which the code reads afterwards to find the straggler. The guard keeps both
  reads inside the array when \<open>n\<close> is its length.
\<close>

function pairs_loop ::
  "int32 list \<Rightarrow> int \<Rightarrow> int \<Rightarrow> (int32 \<times> int32) list \<Rightarrow> (int32 \<times> int32) list \<times> int" where
  "pairs_loop arr n i pairs =
     (if i + 1 < n
      then pairs_loop arr n (i + 2)
             (pairs @ [if int_gt (arr ! nat i) (arr ! nat (i + 1))
                       then (arr ! nat (i + 1), arr ! nat i)
                       else (arr ! nat i, arr ! nat (i + 1))])
      else (pairs, i))"
  by pat_completeness auto
termination
  by (relation "measure (\<lambda>(arr, n, i, pairs). nat (n - i))") auto

declare pairs_loop.simps [simp del]

text \<open>
  The loop that sorts the pairs by their larger element: the insertion loop from index 1
  to the last index, with the comparison \<open>pairs[k].second > key.second\<close>.
\<close>

definition pair_gt :: "int32 \<times> int32 \<Rightarrow> int32 \<times> int32 \<Rightarrow> bool" where
  "pair_gt p key = int_gt (snd p) (snd key)"

definition sortPairs :: "(int32 \<times> int32) list \<Rightarrow> (int32 \<times> int32) list option" where
  "sortPairs pairs = insertionSort_for pair_gt pairs 0 (int (length pairs) - 1) 1"

text \<open>The loop that builds \<open>mainChain\<close> and \<open>pend\<close> with \<open>push_back\<close>.\<close>

fun chains_loop ::
  "(int32 \<times> int32) list \<Rightarrow> int32 list \<Rightarrow> int32 list \<Rightarrow> int32 list \<times> int32 list" where
  "chains_loop [] mainChain pend = (mainChain, pend)"
| "chains_loop (p # pairs) mainChain pend = chains_loop pairs (mainChain @ [snd p]) (pend @ [fst p])"

text \<open>
  \<open>std::lower_bound\<close> over the whole chain: the binary search of the standard library,
  on the position \<open>first\<close> and the length \<open>len\<close> of the remaining range. The result is a
  position between 0 and the length of the chain.
\<close>

function lower_bound_loop :: "int32 list \<Rightarrow> nat \<Rightarrow> nat \<Rightarrow> int32 \<Rightarrow> nat" where
  "lower_bound_loop xs first len val =
     (if len > 0
      then (let half = len div 2; middle = first + half
            in if xs ! middle <s val
               then lower_bound_loop xs (middle + 1) (len - half - 1) val
               else lower_bound_loop xs first half val)
      else first)"
  by pat_completeness auto
termination
  by (relation "measure (\<lambda>(xs, first, len, val). len)") auto

declare lower_bound_loop.simps [simp del]

definition lower_bound :: "int32 list \<Rightarrow> int32 \<Rightarrow> nat" where
  "lower_bound xs val = lower_bound_loop xs 0 (length xs) val"

definition insert_at :: "'a list \<Rightarrow> nat \<Rightarrow> 'a \<Rightarrow> 'a list" where
  "insert_at xs pos v = take pos xs @ v # drop pos xs"

text \<open>
  The loop over \<open>insertionOrder\<close>, which inserts \<open>pend[insertionOrder[j] + 1]\<close> at its
  lower bound. An index outside \<open>pend\<close> is \<open>None\<close>.
\<close>

fun insertPend_loop :: "int32 list \<Rightarrow> int32 list \<Rightarrow> nat list \<Rightarrow> int32 list option" where
  "insertPend_loop mainChain pend [] = Some mainChain"
| "insertPend_loop mainChain pend (k # insertionOrder) =
     (let pendIndex = k + 1
      in if pendIndex < length pend
         then insertPend_loop
                (insert_at mainChain (lower_bound mainChain (pend ! pendIndex)) (pend ! pendIndex))
                pend insertionOrder
         else None)"

text \<open>
  \<open>mergeInsertSortVector\<close> after its base case: pairs, straggler (with the value \<open>-1\<close> for
  "none"), sorted pairs, the two chains, \<open>pend[0]\<close> at the front, the other \<open>pend\<close>
  elements in the planned order, the straggler.
\<close>

definition pairingPathVector :: "int32 list \<Rightarrow> int \<Rightarrow> int32 list option" where
  "pairingPathVector arr n =
     (case pairs_loop arr n 0 [] of
        (pairs0, i) \<Rightarrow>
          let straggler = (if i < n then arr ! nat i else - 1)
          in case sortPairs pairs0 of
               None \<Rightarrow> None
             | Some pairs \<Rightarrow>
                 (case chains_loop pairs [] [] of
                    (mainChain0, pend) \<Rightarrow>
                      let mainChain1 = (if pend \<noteq> [] then insert_at mainChain0 0 (pend ! 0)
                                        else mainChain0)
                      in case (if length pend > 1
                               then generateJacobsthalInsertionOrder (length pend - 1) []
                               else Some []) of
                           None \<Rightarrow> None
                         | Some insertionOrder \<Rightarrow>
                             (case insertPend_loop mainChain1 pend insertionOrder of
                                None \<Rightarrow> None
                              | Some mainChain \<Rightarrow>
                                  Some (if straggler \<noteq> - 1
                                        then insert_at mainChain (lower_bound mainChain straggler) straggler
                                        else mainChain))))"

definition mergeInsertSortVector :: "int32 list \<Rightarrow> int32 list option" where
  "mergeInsertSortVector arr =
     (let n = int (length arr)
      in if n \<le> 10 then insertionSortVector arr 0 (n - 1)
         else pairingPathVector arr n)"

subsection \<open>insertionSortDeque and mergeInsertSortDeque\<close>

definition insertionSortDeque :: "int32 list \<Rightarrow> int \<Rightarrow> int \<Rightarrow> int32 list option" where
  "insertionSortDeque arr left right = insertionSort_for int_gt arr left right (left + 1)"

text \<open>The deque version puts \<open>pend[0]\<close> in front with \<open>push_front\<close>.\<close>

definition pairingPathDeque :: "int32 list \<Rightarrow> int \<Rightarrow> int32 list option" where
  "pairingPathDeque arr n =
     (case pairs_loop arr n 0 [] of
        (pairs0, i) \<Rightarrow>
          let straggler = (if i < n then arr ! nat i else - 1)
          in case sortPairs pairs0 of
               None \<Rightarrow> None
             | Some pairs \<Rightarrow>
                 (case chains_loop pairs [] [] of
                    (mainChain0, pend) \<Rightarrow>
                      let mainChain1 = (if pend \<noteq> [] then pend ! 0 # mainChain0 else mainChain0)
                      in case (if length pend > 1
                               then generateJacobsthalInsertionOrder (length pend - 1) []
                               else Some []) of
                           None \<Rightarrow> None
                         | Some insertionOrder \<Rightarrow>
                             (case insertPend_loop mainChain1 pend insertionOrder of
                                None \<Rightarrow> None
                              | Some mainChain \<Rightarrow>
                                  Some (if straggler \<noteq> - 1
                                        then insert_at mainChain (lower_bound mainChain straggler) straggler
                                        else mainChain))))"

definition mergeInsertSortDeque :: "int32 list \<Rightarrow> int32 list option" where
  "mergeInsertSortDeque arr =
     (let n = int (length arr)
      in if n \<le> 10 then insertionSortDeque arr 0 (n - 1)
         else pairingPathDeque arr n)"

subsection \<open>mergeInsertSortVector of \<open>ex02_basic\<close>\<close>

text \<open>
  \<open>ex02_basic\<close> has the same \<open>insertionSortVector\<close> and the same \<open>mergeInsertSortVector\<close> up to
  the insertion of the \<open>pend\<close> elements, which its loop
  \<open>for (size_t j = 1; j < pend.size(); ++j)\<close> takes in index order.
\<close>

function basicPend_loop :: "int32 list \<Rightarrow> int32 list \<Rightarrow> nat \<Rightarrow> int32 list" where
  "basicPend_loop mainChain pend j =
     (if j < length pend
      then basicPend_loop (insert_at mainChain (lower_bound mainChain (pend ! j)) (pend ! j)) pend (j + 1)
      else mainChain)"
  by pat_completeness auto
termination
  by (relation "measure (\<lambda>(mainChain, pend, j). length pend - j)") auto

declare basicPend_loop.simps [simp del]

definition pairingPathVector_basic :: "int32 list \<Rightarrow> int \<Rightarrow> int32 list option" where
  "pairingPathVector_basic arr n =
     (case pairs_loop arr n 0 [] of
        (pairs0, i) \<Rightarrow>
          let straggler = (if i < n then arr ! nat i else - 1)
          in case sortPairs pairs0 of
               None \<Rightarrow> None
             | Some pairs \<Rightarrow>
                 (case chains_loop pairs [] [] of
                    (mainChain0, pend) \<Rightarrow>
                      let mainChain1 = (if pend \<noteq> [] then insert_at mainChain0 0 (pend ! 0)
                                        else mainChain0);
                          mainChain = basicPend_loop mainChain1 pend 1
                      in Some (if straggler \<noteq> - 1
                               then insert_at mainChain (lower_bound mainChain straggler) straggler
                               else mainChain)))"

definition mergeInsertSortVector_basic :: "int32 list \<Rightarrow> int32 list option" where
  "mergeInsertSortVector_basic arr =
     (let n = int (length arr)
      in if n \<le> 10 then insertionSortVector arr 0 (n - 1)
         else pairingPathVector_basic arr n)"

subsection \<open>Auxiliary notions of the proofs\<close>

text \<open>The recurrence of the source's comment, in \<open>size_t\<close> arithmetic.\<close>

fun J :: "nat \<Rightarrow> size_t" where
  "J 0 = 0"
| "J (Suc 0) = 1"
| "J (Suc (Suc n)) = J (Suc n) + 2 * J n"

text \<open>The Jacobsthal numbers themselves, as natural numbers.\<close>

fun Jacobsthal :: "nat \<Rightarrow> nat" where
  "Jacobsthal 0 = 0"
| "Jacobsthal (Suc 0) = 1"
| "Jacobsthal (Suc (Suc n)) = Jacobsthal (Suc n) + 2 * Jacobsthal n"

text \<open>What the insertion loops need of the comparison.\<close>

definition strict_weak :: "('a \<Rightarrow> 'a \<Rightarrow> bool) \<Rightarrow> bool" where
  "strict_weak gt \<longleftrightarrow>
     (\<forall>a b. gt a b \<longrightarrow> \<not> gt b a) \<and> (\<forall>a b c. \<not> gt a b \<longrightarrow> \<not> gt b c \<longrightarrow> \<not> gt a c)"

text \<open>The \<open>inserted\<close> markers record exactly the indices already in \<open>order\<close>.\<close>

definition order_inv :: "nat \<Rightarrow> nat list \<Rightarrow> bool list \<Rightarrow> bool" where
  "order_inv pendSize order inserted \<longleftrightarrow>
     length inserted = pendSize \<and> distinct order \<and>
     set order = {k. k < pendSize \<and> inserted ! k}"

text \<open>The pairs that the pairing loop builds, by recursion on the array.\<close>

fun pairs_of :: "int32 list \<Rightarrow> (int32 \<times> int32) list" where
  "pairs_of (a # b # rest) = (if int_gt a b then (b, a) else (a, b)) # pairs_of rest"
| "pairs_of rest = []"

text \<open>The value of the variable \<open>straggler\<close> after the pairing loop.\<close>

definition straggler_of :: "int32 list \<Rightarrow> int32" where
  "straggler_of arr = (if odd (length arr) then last arr else - 1)"

section \<open>Proofs\<close>

subsection \<open>jacobsthal\<close>

lemma jacobsthal_loop_J:
  "2 \<le> i \<Longrightarrow> i \<le> n + 1 \<Longrightarrow> c = J (i - 1) \<Longrightarrow>
   jacobsthal_loop i n (J (i - 2)) (J (i - 1)) c = J n"
proof (induction "n + 1 - i" arbitrary: i c)
  case 0
  then have "i = n + 1" by simp
  then show ?case using 0 by (simp add: jacobsthal_loop.simps)
next
  case (Suc k)
  then have le: "i \<le> n" by simp
  obtain m where m: "i = Suc (Suc m)" using Suc.prems(1)
    by (metis One_nat_def Suc_1 Suc_le_D Suc_le_mono)
  have "jacobsthal_loop (i + 1) n (J (i + 1 - 2)) (J (i + 1 - 1)) (J (i + 1 - 1)) = J n"
    using Suc by (intro Suc.hyps(1)) auto
  then show ?case using le m
    by (subst jacobsthal_loop.simps) (simp add: Let_def)
qed

lemma jacobsthal_J: "jacobsthal n = J n"
proof (cases "n < 2")
  case True
  then have "n = 0 \<or> n = 1" by auto
  then show ?thesis by (auto simp: jacobsthal_def)
next
  case False
  then show ?thesis
    using jacobsthal_loop_J [of 2 n 1] by (simp add: jacobsthal_def numeral_2_eq_2)
qed

lemma Jacobsthal_closed: "3 * Jacobsthal n + 1 = 2 ^ n + 2 * (n mod 2)"
proof (induction n rule: Jacobsthal.induct)
  case 1
  show ?case by simp
next
  case 2
  show ?case by simp
next
  case (3 n)
  have m: "Suc n mod 2 = 1 - n mod 2" "Suc (Suc n) mod 2 = n mod 2" by presburger+
  have "3 * Jacobsthal (Suc (Suc n)) + 3 = (3 * Jacobsthal (Suc n) + 1) + 2 * (3 * Jacobsthal n + 1)"
    by simp
  also have "\<dots> = (2 ^ Suc n + 2 * (Suc n mod 2)) + 2 * (2 ^ n + 2 * (n mod 2))"
    using "3.IH" by simp
  also have "\<dots> = 2 ^ Suc (Suc n) + 2 * (n mod 2) + 2"
    unfolding m by (cases "n mod 2 = 0") auto
  finally show ?case unfolding m by simp
qed

lemma Jacobsthal_mono: "m \<le> n \<Longrightarrow> 3 * Jacobsthal m \<le> 2 ^ n + 1"
proof -
  assume "m \<le> n"
  then have "(2::nat) ^ m \<le> 2 ^ n" by simp
  moreover have "3 * Jacobsthal m \<le> 2 ^ m + 1"
    using Jacobsthal_closed [of m] by (cases "m mod 2 = 0") auto
  ultimately show ?thesis by linarith
qed

lemma Jacobsthal_fits: "n \<le> 65 \<Longrightarrow> Jacobsthal n < 2 ^ 64"
proof -
  assume "n \<le> 65"
  then have "3 * Jacobsthal n \<le> 2 ^ 65 + 1" by (rule Jacobsthal_mono)
  then show ?thesis by simp
qed

lemma unat_J: "n \<le> 65 \<Longrightarrow> unat (J n) = Jacobsthal n"
proof (induction n rule: Jacobsthal.induct)
  case 1
  show ?case by simp
next
  case 2
  show ?case by simp
next
  case (3 n)
  have a: "unat (J (Suc n)) = Jacobsthal (Suc n)" and b: "unat (J n) = Jacobsthal n"
    using 3 by simp_all
  have fits: "Jacobsthal (Suc n) + 2 * Jacobsthal n < 2 ^ 64"
    using Jacobsthal_fits [OF "3.prems"] by simp
  have two: "unat (2 * J n) = 2 * Jacobsthal n"
  proof -
    have "unat (2 * J n) = (unat (2 :: size_t) * unat (J n)) mod 2 ^ LENGTH(64)"
      by (rule unat_word_ariths)
    then show ?thesis using b fits by simp
  qed
  have "unat (J (Suc n) + 2 * J n) = (unat (J (Suc n)) + unat (2 * J n)) mod 2 ^ LENGTH(64)"
    by (rule unat_word_ariths)
  then show ?case using a two fits by simp
qed

lemma jacobsthal_table:
  "map (unat \<circ> jacobsthal) [0..<11] = [0, 1, 1, 3, 5, 11, 21, 43, 85, 171, 341]"
  by code_simp

text \<open>
  Claim C5. \<open>jacobsthal\<close> satisfies the recurrence \<open>J(0) = 0\<close>, \<open>J(1) = 1\<close>,
  \<open>J(n) = J(n-1) + 2 * J(n-2)\<close> for every \<open>n \<ge> 2\<close>, in the arithmetic of its result type
  \<open>size_t\<close>; up to \<open>n = 65\<close>, the last index at which the 64-bit accumulators do not
  wrap, its values are the Jacobsthal numbers themselves; and its values at \<open>0..10\<close> are
  \<open>0, 1, 1, 3, 5, 11, 21, 43, 85, 171, 341\<close>.
\<close>

theorem jacobsthal_recurrence:
  "jacobsthal 0 = 0 \<and> jacobsthal 1 = 1 \<and>
   (\<forall>n\<ge>2. jacobsthal n = jacobsthal (n - 1) + 2 * jacobsthal (n - 2)) \<and>
   (\<forall>n\<le>65. unat (jacobsthal n) = Jacobsthal n) \<and>
   map (unat \<circ> jacobsthal) [0..<11] = [0, 1, 1, 3, 5, 11, 21, 43, 85, 171, 341]"
proof (intro conjI allI impI)
  show "jacobsthal 0 = 0" by (simp add: jacobsthal_def)
  show "jacobsthal 1 = 1" by (simp add: jacobsthal_def)
  show "map (unat \<circ> jacobsthal) [0..<11] = [0, 1, 1, 3, 5, 11, 21, 43, 85, 171, 341]"
    by (rule jacobsthal_table)
next
  fix n :: nat
  assume "2 \<le> n"
  then obtain m where "n = Suc (Suc m)"
    by (metis One_nat_def Suc_1 Suc_le_D Suc_le_mono)
  then show "jacobsthal n = jacobsthal (n - 1) + 2 * jacobsthal (n - 2)"
    by (simp add: jacobsthal_J)
next
  fix n :: nat
  assume "n \<le> 65"
  then show "unat (jacobsthal n) = Jacobsthal n"
    by (simp add: jacobsthal_J unat_J)
qed

theorem jacobsthal_recurrence_witness:
  "(2::nat) \<le> 7 \<and> jacobsthal 7 = jacobsthal 6 + 2 * jacobsthal 5 \<and>
   (7::nat) \<le> 65 \<and> unat (jacobsthal 7) = Jacobsthal 7 \<and> unat (jacobsthal 7) = 43"
proof -
  have "jacobsthal 7 = jacobsthal (7 - 1) + 2 * jacobsthal (7 - 2)"
    using jacobsthal_recurrence [THEN conjunct2, THEN conjunct2, THEN conjunct1, rule_format, of 7]
    by simp
  moreover have "unat (jacobsthal 7) = Jacobsthal 7"
    using jacobsthal_recurrence [THEN conjunct2, THEN conjunct2, THEN conjunct2, THEN conjunct1,
        rule_format, of 7]
    by simp
  moreover have "unat (jacobsthal 7) = 43" by code_simp
  ultimately show ?thesis by simp
qed

subsection \<open>generateJacobsthalInsertionOrder\<close>

lemma order_inv_step:
  assumes "order_inv pendSize order inserted" and "j < pendSize" and "\<not> inserted ! j"
  shows "order_inv pendSize (order @ [j]) (inserted[j := True])"
proof -
  have len: "length inserted = pendSize" and d: "distinct order"
    and s: "set order = {k. k < pendSize \<and> inserted ! k}"
    using assms(1) by (simp_all add: order_inv_def)
  have "j \<notin> set order" using s assms(3) by simp
  moreover have "{k. k < pendSize \<and> inserted[j := True] ! k} = insert j {k. k < pendSize \<and> inserted ! k}"
    using len assms(2) by (auto simp: nth_list_update)
  ultimately show ?thesis using len d s by (simp add: order_inv_def)
qed

lemma group_loop_inv:
  "order_inv pendSize order inserted \<Longrightarrow>
   group_loop pendSize prevJacob j order inserted = (order', inserted') \<Longrightarrow>
   order_inv pendSize order' inserted'"
proof (induction pendSize prevJacob j order inserted rule: group_loop.induct)
  case (1 pendSize prevJacob j order inserted)
  show ?case
  proof (cases "j > prevJacob")
    case False
    then show ?thesis using "1.prems" by (simp add: group_loop.simps)
  next
    case True
    show ?thesis
    proof (cases "j < pendSize \<and> \<not> inserted ! j")
      case True
      then have "order_inv pendSize (order @ [j]) (inserted[j := True])"
        using "1.prems"(1) by (simp add: order_inv_step)
      moreover have "group_loop pendSize prevJacob (j - 1) (order @ [j]) (inserted[j := True])
                     = (order', inserted')"
        using "1.prems"(2) True \<open>prevJacob < j\<close> by (subst (asm) group_loop.simps) simp
      ultimately show ?thesis using "1.IH"(1) True \<open>prevJacob < j\<close> by blast
    next
      case False
      then have "group_loop pendSize prevJacob (j - 1) order inserted = (order', inserted')"
        using "1.prems"(2) \<open>prevJacob < j\<close> by (subst (asm) group_loop.simps) auto
      then show ?thesis using "1.IH"(2) "1.prems"(1) False \<open>prevJacob < j\<close> by blast
    qed
  qed
qed

lemma groups_loop_inv:
  "order_inv pendSize order inserted \<Longrightarrow>
   groups_loop pendSize jacobsthalNums prevJacob order inserted = (order', inserted') \<Longrightarrow>
   order_inv pendSize order' inserted'"
proof (induction jacobsthalNums arbitrary: prevJacob order inserted)
  case Nil
  then show ?case by simp
next
  case (Cons currentJacob rest)
  obtain o1 i1 where g: "group_loop pendSize prevJacob currentJacob order inserted = (o1, i1)"
    by (cases "group_loop pendSize prevJacob currentJacob order inserted")
  then have "order_inv pendSize o1 i1" using Cons.prems(1) group_loop_inv by blast
  moreover have "groups_loop pendSize rest currentJacob o1 i1 = (order', inserted')"
    using Cons.prems(2) g by simp
  ultimately show ?case using Cons.IH by blast
qed

lemma remaining_loop_complete:
  "length inserted = pendSize \<Longrightarrow> i \<le> pendSize \<Longrightarrow> distinct order \<Longrightarrow>
   (\<forall>k. k \<in> set order \<longleftrightarrow> k < pendSize \<and> (inserted ! k \<or> k < i)) \<Longrightarrow>
   distinct (remaining_loop pendSize i inserted order) \<and>
   set (remaining_loop pendSize i inserted order) = {0..<pendSize}"
proof (induction pendSize i inserted order rule: remaining_loop.induct)
  case (1 pendSize i inserted order)
  note mem = "1.prems"(4) [rule_format]
  show ?case
  proof (cases "i < pendSize")
    case False
    then have i: "i = pendSize" using "1.prems"(2) by simp
    have "remaining_loop pendSize i inserted order = order"
      using False by (subst remaining_loop.simps) simp
    moreover have "k \<in> set order \<longleftrightarrow> k \<in> {0..<pendSize}" for k
      using mem [of k] i by auto
    then have "set order = {0..<pendSize}" by blast
    ultimately show ?thesis using "1.prems"(3) by simp
  next
    case True
    define order1 where "order1 = (if \<not> inserted ! i then order @ [i] else order)"
    have notin: "\<not> inserted ! i \<Longrightarrow> i \<notin> set order"
      using mem [of i] by simp
    have d: "distinct order1" using "1.prems"(3) notin by (simp add: order1_def)
    have s: "k \<in> set order1 \<longleftrightarrow> k < pendSize \<and> (inserted ! k \<or> k < i + 1)" for k
    proof (cases "k = i")
      case True
      then show ?thesis using mem [of i] \<open>i < pendSize\<close> by (simp add: order1_def)
    next
      case False
      then have "k < i + 1 \<longleftrightarrow> k < i" by linarith
      moreover have "k \<in> set order1 \<longleftrightarrow> k \<in> set order"
        using False by (simp add: order1_def)
      ultimately show ?thesis using mem [of k] by simp
    qed
    have "distinct (remaining_loop pendSize (i + 1) inserted order1) \<and>
          set (remaining_loop pendSize (i + 1) inserted order1) = {0..<pendSize}"
      unfolding order1_def
    proof (rule "1.IH")
      show "i < pendSize" by fact
      show "length inserted = pendSize" by fact
      show "i + 1 \<le> pendSize" using True by simp
      show "distinct (if \<not> inserted ! i then order @ [i] else order)"
        using d unfolding order1_def .
      show "\<forall>k. k \<in> set (if \<not> inserted ! i then order @ [i] else order)
            \<longleftrightarrow> k < pendSize \<and> (inserted ! k \<or> k < i + 1)"
        using s unfolding order1_def by blast
    qed
    moreover have "remaining_loop pendSize i inserted order
                   = remaining_loop pendSize (i + 1) inserted order1"
      using True by (subst remaining_loop.simps) (simp add: order1_def)
    ultimately show ?thesis by simp
  qed
qed

lemma jacobsthalNums_loop_returns:
  "index \<le> k \<Longrightarrow> pendSize \<le> unat (jacobsthal k) \<Longrightarrow>
   \<exists>nums. jacobsthalNums_loop pendSize index acc = Some nums"
proof (induction "k - index" arbitrary: index acc)
  case 0
  then have "index = k" by simp
  then show ?case using 0 by (subst jacobsthalNums_loop.simps) simp
next
  case (Suc d)
  show ?case
  proof (cases "pendSize \<le> unat (jacobsthal index)")
    case True
    then show ?thesis by (subst jacobsthalNums_loop.simps) simp
  next
    case False
    have "\<exists>nums. jacobsthalNums_loop pendSize (index + 1) (acc @ [unat (jacobsthal index)]) = Some nums"
      using Suc by (intro Suc.hyps(1)) auto
    then show ?thesis using False by (subst jacobsthalNums_loop.simps) (simp add: Let_def)
  qed
qed

lemma jacobsthal_65_word: "jacobsthal 65 = 12297829382473034411"
  by code_simp

lemma jacobsthal_65: "unat (jacobsthal 65) = 12297829382473034411"
  by (simp add: jacobsthal_65_word)

lemma generate_permutation:
  assumes "1 \<le> pendSize" and "pendSize < 2 ^ 63"
  shows "\<exists>order'. generateJacobsthalInsertionOrder pendSize order = Some order' \<and>
           distinct order' \<and> set order' = {0..<pendSize}"
proof -
  have "pendSize \<le> unat (jacobsthal 65)" using assms(2) by (simp add: jacobsthal_65)
  then obtain nums where nums: "jacobsthalNums_loop pendSize 3 [] = Some nums"
    using jacobsthalNums_loop_returns [of 3 65 pendSize "[]"] by auto
  obtain o1 i1 where g: "groups_loop pendSize nums 0 [] (replicate pendSize False) = (o1, i1)"
    by (cases "groups_loop pendSize nums 0 [] (replicate pendSize False)")
  have "order_inv pendSize [] (replicate pendSize False)"
    by (simp add: order_inv_def)
  then have "order_inv pendSize o1 i1" using g groups_loop_inv by blast
  then have "distinct (remaining_loop pendSize 0 i1 o1) \<and>
             set (remaining_loop pendSize 0 i1 o1) = {0..<pendSize}"
    by (intro remaining_loop_complete) (auto simp: order_inv_def)
  moreover have "generateJacobsthalInsertionOrder pendSize order = Some (remaining_loop pendSize 0 i1 o1)"
    using assms(1) nums g by (simp add: generateJacobsthalInsertionOrder_def)
  ultimately show ?thesis by simp
qed

text \<open>
  Claim C4. For every \<open>pendSize \<ge> 1\<close>, \<open>generateJacobsthalInsertionOrder\<close> returns, and
  the order it returns contains every index of \<open>0..pendSize-1\<close> exactly once: it has no
  repetition and its elements are exactly the indices below \<open>pendSize\<close>. \<open>pendSize\<close> is the
  size of the \<open>std::vector<bool>\<close> the function allocates, hence below \<open>2 ^ 63\<close>; this
  bound is what makes the search for the thresholds end before the \<open>size_t\<close> accumulators
  of \<open>jacobsthal\<close> wrap around.
\<close>

theorem generateJacobsthalInsertionOrder_permutation:
  assumes "1 \<le> pendSize" and "pendSize < 2 ^ 63"
  shows "\<exists>order'. generateJacobsthalInsertionOrder pendSize order = Some order' \<and>
           distinct order' \<and> set order' = {0..<pendSize} \<and> length order' = pendSize \<and>
           (\<forall>k<pendSize. count_list order' k = 1)"
proof -
  from generate_permutation [OF assms] obtain order' where
    run: "generateJacobsthalInsertionOrder pendSize order = Some order'"
    and d: "distinct order'" and s: "set order' = {0..<pendSize}"
    by blast
  have "length order' = card (set order')" using d by (simp add: distinct_card)
  then have len: "length order' = pendSize" using s by simp
  have "count_list order' k = 1" if "k < pendSize" for k
  proof -
    have "mset_set (set order') = mset order'" using d by (rule mset_set_set)
    then have "count_list order' k = count (mset_set {0..<pendSize}) k"
      using s by (metis count_mset)
    then show ?thesis using that by simp
  qed
  then show ?thesis using run d s len by blast
qed

theorem generateJacobsthalInsertionOrder_permutation_witness:
  "(1::nat) \<le> 9 \<and> (9::nat) < 2 ^ 63 \<and>
   generateJacobsthalInsertionOrder 9 [] = Some [3, 2, 1, 5, 4, 8, 7, 6, 0] \<and>
   (\<exists>order'. generateJacobsthalInsertionOrder 9 [] = Some order' \<and>
      distinct order' \<and> set order' = {0..<9})"
proof -
  have "\<exists>order'. generateJacobsthalInsertionOrder 9 [] = Some order' \<and>
          distinct order' \<and> set order' = {0..<9} \<and> length order' = 9 \<and>
          (\<forall>k<9. count_list order' k = 1)"
    by (rule generateJacobsthalInsertionOrder_permutation) simp_all
  then have "\<exists>order'. generateJacobsthalInsertionOrder 9 [] = Some order' \<and>
          distinct order' \<and> set order' = {0..<9}"
    by blast
  moreover have "generateJacobsthalInsertionOrder 9 [] = Some [3, 2, 1, 5, 4, 8, 7, 6, 0]"
    by code_simp
  ultimately show ?thesis by simp
qed

subsection \<open>The insertion loops\<close>

lemma while_decomp:
  "\<exists>m h'. m \<le> length S \<and>
     insertionSort_while gt (P @ S @ h # R) (int (length P)) (int (length P + length S) - 1) key
       = Some (P @ take m S @ h' # drop m S @ R, int (length P + m) - 1) \<and>
     (\<forall>x\<in>set (drop m S). gt x key) \<and> (0 < m \<longrightarrow> \<not> gt (S ! (m - 1)) key)"
proof (induction S arbitrary: h R rule: rev_induct)
  case Nil
  show ?case
    by (rule exI [of _ 0], rule exI [of _ h]) (simp add: insertionSort_while.simps)
next
  case (snoc s S)
  let ?j = "int (length P + length (S @ [s])) - 1"
  have j: "?j = int (length P + length S)" by simp
  have nj: "nat ?j = length P + length S" and nj1: "nat (?j + 1) = Suc (length P + length S)"
    by simp_all
  have nth: "(P @ (S @ [s]) @ h # R) ! nat ?j = s"
    unfolding nj by (simp add: nth_append)
  show ?case
  proof (cases "gt s key")
    case False
    have "insertionSort_while gt (P @ (S @ [s]) @ h # R) (int (length P)) ?j key
          = Some (P @ (S @ [s]) @ h # R, ?j)"
      using False nth by (subst insertionSort_while.simps) (simp del: append_assoc)
    then show ?thesis using False
      by (intro exI [of _ "length (S @ [s])"] exI [of _ h]) simp
  next
    case True
    have upd: "(P @ (S @ [s]) @ h # R)[nat (?j + 1) := s] = P @ S @ s # (s # R)"
      unfolding nj1 by (simp add: list_update_append)
    from snoc [of s "s # R"] obtain m h' where m: "m \<le> length S"
      and w: "insertionSort_while gt (P @ S @ s # s # R) (int (length P)) (int (length P + length S) - 1) key
              = Some (P @ take m S @ h' # drop m S @ s # R, int (length P + m) - 1)"
      and g: "\<forall>x\<in>set (drop m S). gt x key" and n: "0 < m \<longrightarrow> \<not> gt (S ! (m - 1)) key"
      by blast
    have "insertionSort_while gt (P @ (S @ [s]) @ h # R) (int (length P)) ?j key
          = insertionSort_while gt (P @ S @ s # s # R) (int (length P)) (?j - 1) key"
      using True nth upd by (subst insertionSort_while.simps) (simp del: append_assoc)
    also have "\<dots> = Some (P @ take m S @ h' # drop m S @ s # R, int (length P + m) - 1)"
      using w by simp
    finally have "insertionSort_while gt (P @ (S @ [s]) @ h # R) (int (length P)) ?j key
          = Some (P @ take m (S @ [s]) @ h' # drop m (S @ [s]) @ R, int (length P + m) - 1)"
      using m by simp
    moreover have "\<forall>x\<in>set (drop m (S @ [s])). gt x key" using g True m by simp
    moreover have "0 < m \<longrightarrow> \<not> gt ((S @ [s]) ! (m - 1)) key" using n m by (auto simp: nth_append)
    moreover have "m \<le> length (S @ [s])" using m by simp
    ultimately show ?thesis by blast
  qed
qed

lemma sorted_insert_at:
  assumes sw: "strict_weak gt"
    and srt: "sorted_wrt (\<lambda>a b. \<not> gt a b) S"
    and m: "m \<le> length S"
    and g: "\<forall>x\<in>set (drop m S). gt x u"
    and n: "0 < m \<longrightarrow> \<not> gt (S ! (m - 1)) u"
  shows "sorted_wrt (\<lambda>a b. \<not> gt a b) (take m S @ u # drop m S)"
proof -
  have split: "sorted_wrt (\<lambda>a b. \<not> gt a b) (take m S) \<and>
      sorted_wrt (\<lambda>a b. \<not> gt a b) (drop m S) \<and>
      (\<forall>x\<in>set (take m S). \<forall>y\<in>set (drop m S). \<not> gt x y)"
    using srt sorted_wrt_append [of "\<lambda>a b. \<not> gt a b" "take m S" "drop m S"] by simp
  have asym: "gt a b \<Longrightarrow> \<not> gt b a" for a b
    using sw unfolding strict_weak_def by blast
  have trans: "\<not> gt a b \<Longrightarrow> \<not> gt b c \<Longrightarrow> \<not> gt a c" for a b c
    using sw unfolding strict_weak_def by blast
  have refl: "\<not> gt a a" for a using asym by blast
  have low: "\<not> gt x u" if "x \<in> set (take m S)" for x
  proof -
    from that obtain k where k: "k < m" "k < length S" "x = S ! k"
      by (auto simp: in_set_conv_nth)
    have "\<not> gt (S ! k) (S ! (m - 1))"
    proof (cases "k = m - 1")
      case True
      then show ?thesis using refl by simp
    next
      case False
      then have "k < m - 1" "m - 1 < length S" using k m by auto
      then show ?thesis using srt by (simp add: sorted_wrt_iff_nth_less)
    qed
    moreover have "\<not> gt (S ! (m - 1)) u" using n k by auto
    ultimately show ?thesis using trans k by blast
  qed
  have high: "\<not> gt u y" if "y \<in> set (drop m S)" for y
    using that g asym by blast
  show ?thesis
    using split low high by (auto simp: sorted_wrt_append)
qed

lemma mset_insert_at: "mset (take m S @ u # drop m S) = mset S + {#u#}"
proof -
  have "mset (take m S) + mset (drop m S) = mset S"
    by (metis append_take_drop_id mset_append)
  then show ?thesis by (simp add: ac_simps)
qed

lemma for_decomp:
  assumes sw: "strict_weak gt"
  shows "\<exists>S'. insertionSort_for gt (P @ S @ U @ R) (int (length P))
             (int (length P + length S + length U) - 1) (int (length P + length S))
           = Some (P @ S' @ R) \<and>
         mset S' = mset S + mset U \<and>
         (sorted_wrt (\<lambda>a b. \<not> gt a b) S \<longrightarrow> sorted_wrt (\<lambda>a b. \<not> gt a b) S')"
proof (induction U arbitrary: S)
  case Nil
  show ?case
    by (rule exI [of _ S]) (simp add: insertionSort_for.simps)
next
  case (Cons u U)
  let ?arr = "P @ S @ (u # U) @ R"
  let ?i = "int (length P + length S)"
  let ?right = "int (length P + length S + length (u # U)) - 1"
  have ni: "nat ?i = length P + length S" by simp
  have key: "?arr ! nat ?i = u" unfolding ni by (simp add: nth_append)
  from while_decomp [of S gt P u "U @ R" u] obtain m h' where m: "m \<le> length S"
    and w: "insertionSort_while gt (P @ S @ u # U @ R) (int (length P))
              (int (length P + length S) - 1) u
            = Some (P @ take m S @ h' # drop m S @ U @ R, int (length P + m) - 1)"
    and g: "\<forall>x\<in>set (drop m S). gt x u" and n: "0 < m \<longrightarrow> \<not> gt (S ! (m - 1)) u"
    by blast
  let ?S1 = "take m S @ u # drop m S"
  have nm: "nat (int (length P + m) - 1 + 1) = length P + m" by simp
  have upd: "(P @ take m S @ h' # drop m S @ U @ R)[nat (int (length P + m) - 1 + 1) := u]
             = P @ ?S1 @ U @ R"
    unfolding nm using m by (simp add: list_update_append)
  have len1: "length ?S1 = Suc (length S)" using m by simp
  have eq1: "int (length P + length ?S1 + length U) - 1 = ?right"
    and eq2: "int (length P + length ?S1) = ?i + 1"
    by (simp_all only: len1) simp_all
  from Cons.IH [of ?S1] obtain S' where
    ih: "insertionSort_for gt (P @ ?S1 @ U @ R) (int (length P))
           (int (length P + length ?S1 + length U) - 1) (int (length P + length ?S1))
         = Some (P @ S' @ R)"
    and ms: "mset S' = mset ?S1 + mset U"
    and so: "sorted_wrt (\<lambda>a b. \<not> gt a b) ?S1 \<longrightarrow> sorted_wrt (\<lambda>a b. \<not> gt a b) S'"
    by blast
  have bounds: "?i \<le> ?right" "0 \<le> ?i" "?i < int (length ?arr)"
    "0 \<le> int (length P + m) - 1 + 1"
    "int (length P + m) - 1 + 1 < int (length (P @ take m S @ h' # drop m S @ U @ R))"
    using m by simp_all
  have "insertionSort_for gt ?arr (int (length P)) ?right ?i
        = insertionSort_for gt (P @ ?S1 @ U @ R) (int (length P)) ?right (?i + 1)"
    apply (subst insertionSort_for.simps)
    apply (simp only: bounds if_True key Let_def)
    using w upd bounds apply (simp del: append_assoc)
    done
  also have "\<dots> = Some (P @ S' @ R)"
    using ih by (simp only: eq1 eq2)
  finally have res: "insertionSort_for gt ?arr (int (length P)) ?right ?i = Some (P @ S' @ R)" .
  have "mset S' = mset S + mset (u # U)"
    using ms by (simp only: mset_insert_at) simp
  moreover have "sorted_wrt (\<lambda>a b. \<not> gt a b) S \<longrightarrow> sorted_wrt (\<lambda>a b. \<not> gt a b) S'"
  proof
    assume srt: "sorted_wrt (\<lambda>a b. \<not> gt a b) S"
    have "sorted_wrt (\<lambda>a b. \<not> gt a b) ?S1"
      using sw srt m g n by (rule sorted_insert_at)
    then show "sorted_wrt (\<lambda>a b. \<not> gt a b) S'" using so by blast
  qed
  ultimately show ?case using res by blast
qed

lemma strict_weak_int_gt: "strict_weak int_gt"
  by (simp add: strict_weak_def int_gt_def word_sless_alt)

lemma not_int_gt: "(\<lambda>a b. \<not> int_gt a b) = (\<lambda>a b. a \<le>s b)"
  by (auto simp: int_gt_def word_sless_alt word_sle_eq fun_eq_iff)

lemma insertionSortVector_decomp:
  "\<exists>S'. insertionSortVector (P @ s # U @ R) (int (length P)) (int (length P + length U))
          = Some (P @ S' @ R) \<and>
        mset S' = mset (s # U) \<and> sorted_wrt (\<lambda>a b. a \<le>s b) S'"
proof -
  from for_decomp [OF strict_weak_int_gt, of P "[s]" U R]
  obtain S' where "insertionSort_for int_gt (P @ [s] @ U @ R) (int (length P))
             (int (length P + length [s] + length U) - 1) (int (length P + length [s]))
           = Some (P @ S' @ R)"
    and "mset S' = mset [s] + mset U"
    and "sorted_wrt (\<lambda>a b. \<not> int_gt a b) [s] \<longrightarrow> sorted_wrt (\<lambda>a b. \<not> int_gt a b) S'"
    by blast
  then show ?thesis
    by (intro exI [of _ S']) (simp add: insertionSortVector_def not_int_gt add.commute)
qed

text \<open>
  Claim C10. For every vector \<open>arr\<close> and indices \<open>0 \<le> left \<le> right < arr.size()\<close>,
  \<open>insertionSortVector(arr, left, right)\<close> returns, keeps the length, leaves every element
  at a position outside \<open>[left, right]\<close> unchanged, and rearranges the positions
  \<open>left..right\<close> into ascending order: that segment of the result is sorted and has the
  same elements as that segment of the input.
\<close>

theorem insertionSortVector_frame:
  assumes "0 \<le> left" and "left \<le> right" and "right < int (length arr)"
  shows "\<exists>arr'. insertionSortVector arr left right = Some arr' \<and>
           length arr' = length arr \<and>
           (\<forall>k<length arr. int k < left \<or> right < int k \<longrightarrow> arr' ! k = arr ! k) \<and>
           sorted_wrt (\<lambda>a b. a \<le>s b) (take (nat (right - left + 1)) (drop (nat left) arr')) \<and>
           mset (take (nat (right - left + 1)) (drop (nat left) arr'))
             = mset (take (nat (right - left + 1)) (drop (nat left) arr))"
proof -
  define l r where "l = nat left" and "r = nat right"
  have lr: "left = int l" "right = int r" "l \<le> r" "r < length arr"
    using assms by (simp_all add: l_def r_def)
  define P s U R where "P = take l arr" and "s = arr ! l"
    and "U = take (r - l) (drop (Suc l) arr)" and "R = drop (Suc r) arr"
  have lenP: "length P = l" and lenU: "length U = r - l"
    using lr by (simp_all add: P_def U_def)
  have "arr = take l arr @ arr ! l # drop (Suc l) arr"
    using lr by (simp add: id_take_nth_drop)
  moreover have "drop (Suc l) arr = U @ R"
  proof -
    have "drop (r - l) (drop (Suc l) arr) = R"
      using lr by (simp add: R_def)
    then show ?thesis unfolding U_def by (metis append_take_drop_id)
  qed
  ultimately have arr: "arr = P @ s # U @ R" by (simp add: P_def s_def)
  from insertionSortVector_decomp [of P s U R] obtain S' where
    run: "insertionSortVector (P @ s # U @ R) (int (length P)) (int (length P + length U))
          = Some (P @ S' @ R)"
    and ms: "mset S' = mset (s # U)" and srt: "sorted_wrt (\<lambda>a b. a \<le>s b) S'"
    by blast
  have lenS: "length S' = Suc (r - l)"
    using ms lenU by (metis length_Cons size_mset)
  have cnt: "nat (right - left + 1) = Suc (r - l)" using lr by simp
  have res: "insertionSortVector arr left right = Some (P @ S' @ R)"
    using run lr lenP lenU by (simp add: arr [symmetric])
  have seg': "take (nat (right - left + 1)) (drop (nat left) (P @ S' @ R)) = S'"
    using lenP lenS lr cnt by simp
  have seg: "take (nat (right - left + 1)) (drop (nat left) arr) = s # U"
    by (subst arr) (use lenP lenU lr cnt in simp)
  have len: "length (P @ S' @ R) = length arr"
    by (subst arr) (simp add: lenS lenU)
  have frame: "(P @ S' @ R) ! k = arr ! k" if "k < length arr" "int k < left \<or> right < int k" for k
  proof (cases "k < l")
    case True
    then show ?thesis by (subst arr) (simp add: nth_append lenP)
  next
    case False
    then have "r < k" using that lr by auto
    moreover have "length (P @ S') = Suc r" "length (P @ s # U) = Suc r"
      using lr by (simp_all add: lenP lenS lenU)
    ultimately have "((P @ S') @ R) ! k = R ! (k - Suc r)"
      and "((P @ s # U) @ R) ! k = R ! (k - Suc r)"
      by (simp_all only: nth_append) simp_all
    then show ?thesis by (subst arr) simp
  qed
  show ?thesis
    using res len frame srt ms seg seg' by (intro exI [of _ "P @ S' @ R"]) simp
qed

theorem insertionSortVector_frame_witness:
  "(0::int) \<le> 1 \<and> (1::int) \<le> 3 \<and> 3 < int (length [5, 3, - 1, 7, 2 :: int32]) \<and>
   insertionSortVector [5, 3, - 1, 7, 2] 1 3 = Some [5, - 1, 3, 7, 2] \<and>
   (\<exists>arr'. insertionSortVector [5, 3, - 1, 7, 2] 1 3 = Some arr' \<and>
      length arr' = 5 \<and> arr' ! 0 = 5 \<and> arr' ! 4 = 2)"
proof -
  have "\<exists>arr'. insertionSortVector [5, 3, - 1, 7, 2] 1 3 = Some arr' \<and>
          length arr' = length [5, 3, - 1, 7, 2 :: int32] \<and>
          (\<forall>k<length [5, 3, - 1, 7, 2 :: int32].
             int k < 1 \<or> 3 < int k \<longrightarrow> arr' ! k = [5, 3, - 1, 7, 2] ! k) \<and>
          sorted_wrt (\<lambda>a b. a \<le>s b) (take (nat (3 - 1 + 1)) (drop (nat 1) arr')) \<and>
          mset (take (nat (3 - 1 + 1)) (drop (nat 1) arr'))
            = mset (take (nat (3 - 1 + 1)) (drop (nat 1) [5, 3, - 1, 7, 2]))"
    by (rule insertionSortVector_frame) simp_all
  then obtain arr' where "insertionSortVector [5, 3, - 1, 7, 2] 1 3 = Some arr'"
    and "length arr' = 5"
    and fr: "\<forall>k<length [5, 3, - 1, 7, 2 :: int32].
             int k < 1 \<or> 3 < int k \<longrightarrow> arr' ! k = [5, 3, - 1, 7, 2] ! k"
    by auto
  moreover have "arr' ! 0 = 5" using fr [rule_format, of 0] by simp
  moreover have "arr' ! 4 = 2" using fr [rule_format, of 4] by simp
  moreover have "insertionSortVector [5, 3, - 1, 7, 2] 1 3 = Some [5, - 1, 3, 7, 2]"
    by code_simp
  ultimately show ?thesis by simp
qed

subsection \<open>The pairing loop, the sorted pairs and the chains\<close>

lemma pairs_loop_eq:
  "pairs_loop (pre @ rest) (int (length pre + length rest)) (int (length pre)) acc
   = (acc @ pairs_of rest, int (length pre + 2 * (length rest div 2)))"
proof (induction rest arbitrary: pre acc rule: pairs_of.induct)
  case (1 a b rest)
  let ?arr = "pre @ a # b # rest"
  let ?i = "int (length pre)"
  have ni: "nat ?i = length pre" "nat (?i + 1) = Suc (length pre)" by simp_all
  have rd: "?arr ! nat ?i = a" "?arr ! nat (?i + 1) = b"
    unfolding ni by (simp_all add: nth_append)
  define n where "n = int (length pre + length (a # b # rest))"
  define pr where "pr = (if int_gt a b then (b, a) else (a, b))"
  have lt: "?i + 1 < n" by (simp add: n_def)
  have e1: "int (length (pre @ [a, b])) = ?i + 2"
    and e2: "int (length (pre @ [a, b]) + length rest) = n"
    and e3: "(pre @ [a, b]) @ rest = ?arr"
    by (simp_all add: n_def)
  have "pairs_loop ?arr n ?i acc = pairs_loop ?arr n (?i + 2) (acc @ [pr])"
    using pairs_loop.simps [of ?arr n ?i acc] lt by (simp only: rd if_True pr_def)
  also have "\<dots> = pairs_loop ((pre @ [a, b]) @ rest)
                     (int (length (pre @ [a, b]) + length rest)) (int (length (pre @ [a, b])))
                     (acc @ [pr])"
    by (simp only: e1 e2 e3)
  also have "\<dots> = ((acc @ [pr]) @ pairs_of rest,
                     int (length (pre @ [a, b]) + 2 * (length rest div 2)))"
    by (rule "1.IH")
  finally have "pairs_loop ?arr n ?i acc
      = ((acc @ [pr]) @ pairs_of rest, int (length (pre @ [a, b]) + 2 * (length rest div 2)))" .
  then show ?case by (simp add: n_def pr_def)
qed (subst pairs_loop.simps, simp)+

lemma pairs_loop_start:
  "pairs_loop arr (int (length arr)) 0 [] = (pairs_of arr, int (2 * (length arr div 2)))"
  using pairs_loop_eq [of "[]" arr "[]"] by simp

lemma length_pairs_of: "length (pairs_of xs) = length xs div 2"
  by (induction xs rule: pairs_of.induct) simp_all

lemma mset_pairs_of:
  "mset (map fst (pairs_of xs)) + mset (map snd (pairs_of xs))
     + mset (drop (2 * (length xs div 2)) xs) = mset xs"
  by (induction xs rule: pairs_of.induct) simp_all

lemma pairs_of_ordered: "p \<in> set (pairs_of xs) \<Longrightarrow> fst p \<le>s snd p"
  by (induction xs rule: pairs_of.induct)
     (auto simp: int_gt_def word_sless_alt word_sle_eq split: if_splits)

lemma strict_weak_pair_gt: "strict_weak pair_gt"
  by (simp add: strict_weak_def pair_gt_def int_gt_def word_sless_alt)

lemma not_pair_gt: "(\<lambda>a b. \<not> pair_gt a b) = (\<lambda>p q. snd p \<le>s snd q)"
  by (auto simp: pair_gt_def int_gt_def word_sless_alt word_sle_eq fun_eq_iff)

lemma sortPairs_spec:
  assumes "ps \<noteq> []"
  shows "\<exists>ps'. sortPairs ps = Some ps' \<and> mset ps' = mset ps \<and>
           sorted_wrt (\<lambda>p q. snd p \<le>s snd q) ps'"
proof -
  obtain p rest where ps: "ps = p # rest" using assms by (cases ps) auto
  from for_decomp [OF strict_weak_pair_gt, of "[]" "[p]" rest "[]"]
  obtain S' where "insertionSort_for pair_gt ([] @ [p] @ rest @ []) (int (length ([] :: (int32 \<times> int32) list)))
             (int (length ([] :: (int32 \<times> int32) list) + length [p] + length rest) - 1)
             (int (length ([] :: (int32 \<times> int32) list) + length [p]))
           = Some ([] @ S' @ [])"
    and "mset S' = mset [p] + mset rest"
    and "sorted_wrt (\<lambda>a b. \<not> pair_gt a b) [p] \<longrightarrow> sorted_wrt (\<lambda>a b. \<not> pair_gt a b) S'"
    by blast
  then show ?thesis
    by (intro exI [of _ S']) (simp add: sortPairs_def ps not_pair_gt add.commute)
qed

lemma chains_loop_eq:
  "chains_loop ps mainChain pend = (mainChain @ map snd ps, pend @ map fst ps)"
  by (induction ps arbitrary: mainChain pend) simp_all

subsection \<open>\<open>lower_bound\<close> and the insertion of the pend elements\<close>

lemma lower_bound_loop_spec:
  "sorted_wrt (\<lambda>a b. a \<le>s b) xs \<Longrightarrow> first + len \<le> length xs \<Longrightarrow>
   (\<forall>i<first. xs ! i <s val) \<Longrightarrow>
   (\<forall>i. first + len \<le> i \<and> i < length xs \<longrightarrow> \<not> xs ! i <s val) \<Longrightarrow>
   first \<le> lower_bound_loop xs first len val \<and>
   lower_bound_loop xs first len val \<le> first + len \<and>
   (\<forall>i<lower_bound_loop xs first len val. xs ! i <s val) \<and>
   (\<forall>i. lower_bound_loop xs first len val \<le> i \<and> i < length xs \<longrightarrow> \<not> xs ! i <s val)"
proof (induction xs first len val rule: lower_bound_loop.induct)
  case (1 xs first len val)
  note srt = "1.prems"(1) and bnd = "1.prems"(2)
    and low = "1.prems"(3) [rule_format] and high = "1.prems"(4) [rule_format]
  have mono: "xs ! i \<le>s xs ! j" if "i \<le> j" "j < length xs" for i j
  proof (cases "i = j")
    case True
    then show ?thesis by simp
  next
    case False
    then have "i < j" using that by simp
    then show ?thesis using srt that by (simp add: sorted_wrt_iff_nth_less)
  qed
  show ?case
  proof (cases "len > 0")
    case False
    then have "lower_bound_loop xs first len val = first"
      by (subst lower_bound_loop.simps) simp
    then show ?thesis using False "1.prems" by simp
  next
    case True
    define half where "half = len div 2"
    define middle where "middle = first + half"
    have mid: "middle < length xs" "half < len"
      using True bnd by (simp_all add: middle_def half_def)
    show ?thesis
    proof (cases "xs ! middle <s val")
      case lt: True
      have eq: "lower_bound_loop xs first len val
                = lower_bound_loop xs (middle + 1) (len - half - 1) val"
        using True lt by (subst lower_bound_loop.simps) (simp add: Let_def half_def middle_def)
      have low': "\<forall>i<middle + 1. xs ! i <s val"
      proof (intro allI impI)
        fix i assume "i < middle + 1"
        then have "xs ! i \<le>s xs ! middle" using mono [of i middle] mid by simp
        then show "xs ! i <s val" using lt by (simp add: word_sle_eq word_sless_alt)
      qed
      have sum: "middle + 1 + (len - half - 1) = first + len"
        using mid by (simp add: middle_def)
      have "middle + 1 \<le> lower_bound_loop xs (middle + 1) (len - half - 1) val \<and>
            lower_bound_loop xs (middle + 1) (len - half - 1) val \<le> middle + 1 + (len - half - 1) \<and>
            (\<forall>i<lower_bound_loop xs (middle + 1) (len - half - 1) val. xs ! i <s val) \<and>
            (\<forall>i. lower_bound_loop xs (middle + 1) (len - half - 1) val \<le> i \<and> i < length xs
                 \<longrightarrow> \<not> xs ! i <s val)"
      proof (rule "1.IH"(1) [OF True half_def middle_def lt srt])
        show "middle + 1 + (len - half - 1) \<le> length xs" using sum bnd by simp
        show "\<forall>i<middle + 1. xs ! i <s val" by (rule low')
        show "\<forall>i. middle + 1 + (len - half - 1) \<le> i \<and> i < length xs \<longrightarrow> \<not> xs ! i <s val"
          using "1.prems"(4) sum by simp
      qed
      then show ?thesis unfolding eq sum using mid by (auto simp: middle_def)
    next
      case ge: False
      have eq: "lower_bound_loop xs first len val = lower_bound_loop xs first half val"
        using True ge by (subst lower_bound_loop.simps) (simp add: Let_def half_def middle_def)
      have high': "\<forall>i. first + half \<le> i \<and> i < length xs \<longrightarrow> \<not> xs ! i <s val"
      proof (intro allI impI)
        fix i assume "first + half \<le> i \<and> i < length xs"
        then have "xs ! middle \<le>s xs ! i" using mono [of middle i] by (simp add: middle_def)
        then show "\<not> xs ! i <s val" using ge by (simp add: word_sle_eq word_sless_alt)
      qed
      have "first \<le> lower_bound_loop xs first half val \<and>
            lower_bound_loop xs first half val \<le> first + half \<and>
            (\<forall>i<lower_bound_loop xs first half val. xs ! i <s val) \<and>
            (\<forall>i. lower_bound_loop xs first half val \<le> i \<and> i < length xs \<longrightarrow> \<not> xs ! i <s val)"
      proof (rule "1.IH"(2) [OF True half_def middle_def ge srt])
        show "first + half \<le> length xs" using mid by (simp add: middle_def)
        show "\<forall>i<first. xs ! i <s val" using "1.prems"(3) .
        show "\<forall>i. first + half \<le> i \<and> i < length xs \<longrightarrow> \<not> xs ! i <s val" by (rule high')
      qed
      then show ?thesis unfolding eq using mid by auto
    qed
  qed
qed

lemma lower_bound_spec:
  assumes "sorted_wrt (\<lambda>a b. a \<le>s b) xs"
  shows "lower_bound xs v \<le> length xs"
    and "\<forall>x\<in>set (take (lower_bound xs v) xs). x <s v"
    and "\<forall>x\<in>set (drop (lower_bound xs v) xs). v \<le>s x"
proof -
  let ?p = "lower_bound xs v"
  have spec: "0 \<le> ?p \<and> ?p \<le> 0 + length xs \<and> (\<forall>i<?p. xs ! i <s v) \<and>
        (\<forall>i. ?p \<le> i \<and> i < length xs \<longrightarrow> \<not> xs ! i <s v)"
    unfolding lower_bound_def using assms by (intro lower_bound_loop_spec) auto
  then show le: "?p \<le> length xs" by simp
  show "\<forall>x\<in>set (take ?p xs). x <s v"
  proof
    fix x assume "x \<in> set (take ?p xs)"
    then obtain i where "i < ?p" "i < length xs" "x = xs ! i"
      using le by (auto simp: in_set_conv_nth)
    then show "x <s v" using spec by blast
  qed
  show "\<forall>x\<in>set (drop ?p xs). v \<le>s x"
  proof
    fix x assume "x \<in> set (drop ?p xs)"
    then obtain i where "i < length xs - ?p" "x = xs ! (?p + i)"
      using le by (auto simp: in_set_conv_nth)
    then have "\<not> x <s v" using spec by simp
    then show "v \<le>s x" by (simp add: word_sle_eq word_sless_alt)
  qed
qed

lemma sorted_insert_lower_bound:
  assumes "sorted_wrt (\<lambda>a b. a \<le>s b) xs"
  shows "sorted_wrt (\<lambda>a b. a \<le>s b) (insert_at xs (lower_bound xs v) v)"
proof -
  let ?p = "lower_bound xs v"
  have parts: "sorted_wrt (\<lambda>a b. a \<le>s b) (take ?p xs) \<and>
      sorted_wrt (\<lambda>a b. a \<le>s b) (drop ?p xs) \<and>
      (\<forall>x\<in>set (take ?p xs). \<forall>y\<in>set (drop ?p xs). x \<le>s y)"
    using assms sorted_wrt_append [of "\<lambda>a b. a \<le>s b" "take ?p xs" "drop ?p xs"] by simp
  have low: "x \<le>s v" if "x \<in> set (take ?p xs)" for x
    using lower_bound_spec(2) [OF assms, of v] that by (auto simp: word_sle_eq word_sless_alt)
  have high: "v \<le>s y" if "y \<in> set (drop ?p xs)" for y
    using lower_bound_spec(3) [OF assms, of v] that by blast
  show ?thesis
    unfolding insert_at_def using parts low high by (auto simp: sorted_wrt_append)
qed

lemma mset_insert_at_any: "mset (insert_at xs p v) = mset xs + {#v#}"
  by (simp only: insert_at_def mset_insert_at)

lemma insertPend_loop_spec:
  "sorted_wrt (\<lambda>a b. a \<le>s b) mainChain \<Longrightarrow> \<forall>k\<in>set insertionOrder. k + 1 < length pend \<Longrightarrow>
   \<exists>mainChain'. insertPend_loop mainChain pend insertionOrder = Some mainChain' \<and>
     sorted_wrt (\<lambda>a b. a \<le>s b) mainChain' \<and>
     mset mainChain' = mset mainChain + mset (map (\<lambda>k. pend ! (k + 1)) insertionOrder)"
proof (induction insertionOrder arbitrary: mainChain)
  case Nil
  then show ?case by simp
next
  case (Cons k insertionOrder)
  let ?mc = "insert_at mainChain (lower_bound mainChain (pend ! (k + 1))) (pend ! (k + 1))"
  have "sorted_wrt (\<lambda>a b. a \<le>s b) ?mc"
    using Cons.prems(1) by (rule sorted_insert_lower_bound)
  moreover have "\<forall>k\<in>set insertionOrder. k + 1 < length pend" using Cons.prems(2) by simp
  ultimately obtain mainChain' where
    "insertPend_loop ?mc pend insertionOrder = Some mainChain'"
    "sorted_wrt (\<lambda>a b. a \<le>s b) mainChain'"
    "mset mainChain' = mset ?mc + mset (map (\<lambda>k. pend ! (k + 1)) insertionOrder)"
    using Cons.IH by blast
  moreover have "k + 1 < length pend" using Cons.prems(2) by simp
  ultimately show ?case
    by (intro exI [of _ mainChain']) (simp add: mset_insert_at_any)
qed

lemma basicPend_loop_spec:
  "sorted_wrt (\<lambda>a b. a \<le>s b) mainChain \<Longrightarrow>
   sorted_wrt (\<lambda>a b. a \<le>s b) (basicPend_loop mainChain pend j) \<and>
   mset (basicPend_loop mainChain pend j) = mset mainChain + mset (drop j pend)"
proof (induction mainChain pend j rule: basicPend_loop.induct)
  case (1 mainChain pend j)
  show ?case
  proof (cases "j < length pend")
    case False
    then show ?thesis using "1.prems" by (subst (1 2) basicPend_loop.simps) simp
  next
    case True
    let ?mc = "insert_at mainChain (lower_bound mainChain (pend ! j)) (pend ! j)"
    have eq: "basicPend_loop mainChain pend j = basicPend_loop ?mc pend (j + 1)"
      using True by (subst basicPend_loop.simps) simp
    have "sorted_wrt (\<lambda>a b. a \<le>s b) ?mc"
      using "1.prems" by (rule sorted_insert_lower_bound)
    then have "sorted_wrt (\<lambda>a b. a \<le>s b) (basicPend_loop ?mc pend (j + 1)) \<and>
          mset (basicPend_loop ?mc pend (j + 1)) = mset ?mc + mset (drop (j + 1) pend)"
      using "1.IH" True by blast
    moreover have "drop j pend = pend ! j # drop (j + 1) pend"
      using True by (simp add: Cons_nth_drop_Suc)
    ultimately show ?thesis unfolding eq by (simp add: mset_insert_at_any)
  qed
qed

lemma mset_pend_order:
  assumes "distinct insertionOrder" and "set insertionOrder = {0..<length pend - 1}"
  shows "mset (map (\<lambda>k. pend ! (k + 1)) insertionOrder) = mset (tl pend)"
proof -
  have "mset_set (set insertionOrder) = mset insertionOrder"
    using assms(1) by (rule mset_set_set)
  then have "mset insertionOrder = mset [0..<length pend - 1]"
    using assms(2) by simp
  then have "mset (map (\<lambda>k. pend ! (k + 1)) insertionOrder)
             = mset (map (\<lambda>k. pend ! (k + 1)) [0..<length pend - 1])"
    by (metis mset_map)
  moreover have "map (\<lambda>k. pend ! (k + 1)) [0..<length pend - 1] = tl pend"
    by (rule nth_equalityI) (simp_all add: nth_tl)
  ultimately show ?thesis by (simp only:)
qed

lemma sorted_unique:
  assumes "sorted_wrt (\<lambda>a b. a \<le>s b) xs" and "sorted_wrt (\<lambda>a b. a \<le>s b) ys"
    and "mset xs = mset ys"
  shows "xs = (ys :: int32 list)"
proof -
  have sx: "sorted (map sint xs)" and sy: "sorted (map sint ys)"
    using assms(1,2) by (simp_all add: sorted_wrt_map word_sle_eq)
  have "mset (map sint ys) = mset (map sint xs)"
    using assms(3) by simp
  then have "sort (map sint xs) = map sint ys"
    using sy by (rule properties_for_sort)
  moreover have "sort (map sint xs) = map sint xs"
    using sx by (intro properties_for_sort) simp_all
  ultimately have "map sint xs = map sint ys" by simp
  moreover have "inj (sint :: int32 \<Rightarrow> int)"
    by (rule injI) (rule signed_word_eqI)
  ultimately show ?thesis by (simp add: inj_map_eq_map)
qed

subsection \<open>The stages of the pairing path\<close>

lemma straggler_index:
  fixes arr :: "'a list"
  defines "m \<equiv> 2 * (length arr div 2)"
  shows "(int m < int (length arr)) = odd (length arr)"
    and "odd (length arr) \<Longrightarrow> arr ! nat (int m) = last arr"
    and "odd (length arr) \<Longrightarrow> drop m arr = [last arr]"
    and "even (length arr) \<Longrightarrow> drop m arr = []"
proof -
  show "(int m < int (length arr)) = odd (length arr)"
    unfolding m_def by presburger
  show ev: "even (length arr) \<Longrightarrow> drop m arr = []"
    unfolding m_def by simp
  assume odd: "odd (length arr)"
  then have m: "m = length arr - 1" and ne: "arr \<noteq> []"
    unfolding m_def by (presburger, auto)
  show "arr ! nat (int m) = last arr"
    using ne by (simp add: m last_conv_nth)
  show "drop m arr = [last arr]"
  proof -
    have "drop m arr = drop m (butlast arr @ [last arr])" using ne by simp
    also have "\<dots> = [last arr]" unfolding m by simp
    finally show ?thesis .
  qed
qed

lemma sorted_pairs_stage:
  assumes "2 \<le> length arr"
  shows "\<exists>ps. sortPairs (pairs_of arr) = Some ps \<and> ps \<noteq> [] \<and>
           length ps = length arr div 2 \<and>
           sorted_wrt (\<lambda>a b. a \<le>s b) (fst (hd ps) # map snd ps) \<and>
           mset (map fst ps) + mset (map snd ps) + mset (drop (2 * (length arr div 2)) arr)
             = mset arr"
proof -
  have len: "length (pairs_of arr) = length arr div 2" by (rule length_pairs_of)
  moreover have "0 < length arr div 2" using assms by simp
  ultimately have ne0: "pairs_of arr \<noteq> []" by auto
  from sortPairs_spec [OF ne0] obtain ps where sp: "sortPairs (pairs_of arr) = Some ps"
    and ms: "mset ps = mset (pairs_of arr)"
    and srt: "sorted_wrt (\<lambda>p q. snd p \<le>s snd q) ps"
    by blast
  have lps: "length ps = length arr div 2"
    using ms len by (metis size_mset)
  then have ne: "ps \<noteq> []" using len ne0 by auto
  have ord: "fst p \<le>s snd p" if "p \<in> set ps" for p
    using that ms pairs_of_ordered by (metis mset_eq_setD)
  obtain p rest where ps: "ps = p # rest" using ne by (cases ps) auto
  have "sorted_wrt (\<lambda>a b. a \<le>s b) (map snd ps)"
    using srt by (simp add: sorted_wrt_map)
  moreover have "fst p \<le>s y" if "y \<in> set (map snd ps)" for y
  proof -
    have "snd p \<le>s y" using that srt ps by auto
    moreover have "fst p \<le>s snd p" using ord ps by simp
    ultimately show ?thesis by (simp add: word_sle_eq)
  qed
  ultimately have "sorted_wrt (\<lambda>a b. a \<le>s b) (fst (hd ps) # map snd ps)"
    using ps by simp
  moreover have "mset (map fst ps) = mset (map fst (pairs_of arr))"
    and "mset (map snd ps) = mset (map snd (pairs_of arr))"
    using ms by (metis mset_map)+
  ultimately show ?thesis using sp ne lps mset_pairs_of [of arr] by auto
qed

lemma insertion_order_stage:
  assumes "pend \<noteq> []" and "length pend < 2 ^ 31"
  shows "\<exists>insertionOrder.
           (if length pend > 1 then generateJacobsthalInsertionOrder (length pend - 1) []
            else Some []) = Some insertionOrder \<and>
           distinct insertionOrder \<and> set insertionOrder = {0..<length pend - 1}"
proof (cases "length pend > 1")
  case True
  have "(2 :: nat) ^ 31 \<le> 2 ^ 63" by simp
  then have "length pend - 1 < 2 ^ 63" using assms(2) by linarith
  then show ?thesis using True generate_permutation [of "length pend - 1" "[]"] by simp
next
  case False
  then have "length pend = 1" using assms(1) by (cases pend) auto
  then show ?thesis by simp
qed

lemma straggler_insert:
  assumes "sorted_wrt (\<lambda>a b. a \<le>s b) mainChain"
    and "mset mainChain + mset (drop (2 * (length arr div 2)) arr) = mset arr"
  defines "res \<equiv> (if straggler_of arr \<noteq> - 1
                    then insert_at mainChain (lower_bound mainChain (straggler_of arr)) (straggler_of arr)
                    else mainChain)"
  shows "sorted_wrt (\<lambda>a b. a \<le>s b) res"
    and "mset res + (if odd (length arr) \<and> last arr = - 1 then {#- 1#} else {#}) = mset arr"
proof -
  show "sorted_wrt (\<lambda>a b. a \<le>s b) res"
    unfolding res_def using assms(1) by (simp add: sorted_insert_lower_bound)
  show "mset res + (if odd (length arr) \<and> last arr = - 1 then {#- 1#} else {#}) = mset arr"
  proof (cases "odd (length arr)")
    case False
    then have "drop (2 * (length arr div 2)) arr = []" by (simp add: straggler_index(4))
    then show ?thesis using assms(2) False by (simp add: res_def straggler_of_def)
  next
    case True
    then have "drop (2 * (length arr div 2)) arr = [last arr]" by (rule straggler_index(3))
    then have "mset mainChain + {#last arr#} = mset arr" using assms(2) by simp
    then show ?thesis using True
      by (auto simp: res_def straggler_of_def mset_insert_at_any)
  qed
qed

lemma pairingPathVector_run:
  assumes "2 \<le> length arr" and "length arr < 2 ^ 31"
  shows "\<exists>mainChain. sorted_wrt (\<lambda>a b. a \<le>s b) mainChain \<and>
           mset mainChain + mset (drop (2 * (length arr div 2)) arr) = mset arr \<and>
           pairingPathVector arr (int (length arr))
             = Some (if straggler_of arr \<noteq> - 1
                     then insert_at mainChain (lower_bound mainChain (straggler_of arr)) (straggler_of arr)
                     else mainChain)"
proof -
  from sorted_pairs_stage [OF assms(1)] obtain ps where sp: "sortPairs (pairs_of arr) = Some ps"
    and ne: "ps \<noteq> []" and lps: "length ps = length arr div 2"
    and srt: "sorted_wrt (\<lambda>a b. a \<le>s b) (fst (hd ps) # map snd ps)"
    and ms: "mset (map fst ps) + mset (map snd ps) + mset (drop (2 * (length arr div 2)) arr)
             = mset arr"
    by blast
  define pend where "pend = map fst ps"
  define mainChain1 where "mainChain1 = fst (hd ps) # map snd ps"
  have pne: "pend \<noteq> []" and plen: "length pend < 2 ^ 31"
    using ne lps assms(2) by (simp_all add: pend_def)
  have p0: "pend ! 0 = fst (hd ps)"
    using ne by (simp add: pend_def hd_conv_nth)
  have front: "insert_at (map snd ps) 0 (pend ! 0) = mainChain1"
    by (simp add: insert_at_def p0 mainChain1_def)
  from insertion_order_stage [OF pne plen] obtain insertionOrder where
    io: "(if length pend > 1 then generateJacobsthalInsertionOrder (length pend - 1) []
          else Some []) = Some insertionOrder"
    and dist: "distinct insertionOrder" and set: "set insertionOrder = {0..<length pend - 1}"
    by blast
  have "\<forall>k\<in>set insertionOrder. k + 1 < length pend" using set by auto
  with insertPend_loop_spec [of mainChain1 insertionOrder pend] srt
  obtain mainChain where ins: "insertPend_loop mainChain1 pend insertionOrder = Some mainChain"
    and msrt: "sorted_wrt (\<lambda>a b. a \<le>s b) mainChain"
    and mms: "mset mainChain = mset mainChain1 + mset (map (\<lambda>k. pend ! (k + 1)) insertionOrder)"
    unfolding mainChain1_def by blast
  have "mset (map (\<lambda>k. pend ! (k + 1)) insertionOrder) = mset (tl pend)"
    using dist set by (rule mset_pend_order)
  moreover have "mset pend = {#fst (hd ps)#} + mset (tl pend)"
    using pne p0 by (cases pend) simp_all
  ultimately have "mset mainChain = mset (map snd ps) + mset pend"
    using mms by (simp add: mainChain1_def)
  then have total: "mset mainChain + mset (drop (2 * (length arr div 2)) arr) = mset arr"
    using ms by (simp add: pend_def ac_simps)
  have strag: "(if int (2 * (length arr div 2)) < int (length arr)
                then arr ! nat (int (2 * (length arr div 2))) else - 1) = straggler_of arr"
    using straggler_index(1,2) [of arr] by (simp add: straggler_of_def)
  have "pairingPathVector arr (int (length arr))
        = Some (if straggler_of arr \<noteq> - 1
                then insert_at mainChain (lower_bound mainChain (straggler_of arr)) (straggler_of arr)
                else mainChain)"
    unfolding pairingPathVector_def pairs_loop_start
    apply (simp only: prod.case Let_def strag sp option.case chains_loop_eq append_Nil)
    apply (simp only: pend_def [symmetric] pne if_True not_False_eq_True front io ins option.case)
    done
  then show ?thesis using msrt total by blast
qed

lemma pairingPathVector_basic_run:
  assumes "2 \<le> length arr"
  shows "\<exists>mainChain. sorted_wrt (\<lambda>a b. a \<le>s b) mainChain \<and>
           mset mainChain + mset (drop (2 * (length arr div 2)) arr) = mset arr \<and>
           pairingPathVector_basic arr (int (length arr))
             = Some (if straggler_of arr \<noteq> - 1
                     then insert_at mainChain (lower_bound mainChain (straggler_of arr)) (straggler_of arr)
                     else mainChain)"
proof -
  from sorted_pairs_stage [OF assms(1)] obtain ps where sp: "sortPairs (pairs_of arr) = Some ps"
    and ne: "ps \<noteq> []"
    and srt: "sorted_wrt (\<lambda>a b. a \<le>s b) (fst (hd ps) # map snd ps)"
    and ms: "mset (map fst ps) + mset (map snd ps) + mset (drop (2 * (length arr div 2)) arr)
             = mset arr"
    by blast
  define pend where "pend = map fst ps"
  define mainChain1 where "mainChain1 = fst (hd ps) # map snd ps"
  define mainChain where "mainChain = basicPend_loop mainChain1 pend 1"
  have pne: "pend \<noteq> []" using ne by (simp add: pend_def)
  have p0: "pend ! 0 = fst (hd ps)"
    using ne by (simp add: pend_def hd_conv_nth)
  have front: "insert_at (map snd ps) 0 (pend ! 0) = mainChain1"
    by (simp add: insert_at_def p0 mainChain1_def)
  have msrt: "sorted_wrt (\<lambda>a b. a \<le>s b) mainChain"
    and mms: "mset mainChain = mset mainChain1 + mset (drop 1 pend)"
    using basicPend_loop_spec [of mainChain1 pend 1] srt
    by (simp_all add: mainChain_def mainChain1_def)
  have "mset pend = {#fst (hd ps)#} + mset (drop 1 pend)"
    using pne p0 by (cases pend) simp_all
  then have "mset mainChain = mset (map snd ps) + mset pend"
    using mms by (simp add: mainChain1_def)
  then have total: "mset mainChain + mset (drop (2 * (length arr div 2)) arr) = mset arr"
    using ms by (simp add: pend_def ac_simps)
  have strag: "(if int (2 * (length arr div 2)) < int (length arr)
                then arr ! nat (int (2 * (length arr div 2))) else - 1) = straggler_of arr"
    using straggler_index(1,2) [of arr] by (simp add: straggler_of_def)
  have "pairingPathVector_basic arr (int (length arr))
        = Some (if straggler_of arr \<noteq> - 1
                then insert_at mainChain (lower_bound mainChain (straggler_of arr)) (straggler_of arr)
                else mainChain)"
    unfolding pairingPathVector_basic_def pairs_loop_start
    apply (simp only: prod.case Let_def strag sp option.case chains_loop_eq append_Nil)
    apply (simp only: pend_def [symmetric] pne if_True not_False_eq_True front
        mainChain_def [symmetric])
    done
  then show ?thesis using msrt total by blast
qed

lemma pairingPathDeque_eq: "pairingPathDeque arr n = pairingPathVector arr n"
proof -
  have "insert_at xs 0 v = v # xs" for xs :: "int32 list" and v
    by (simp add: insert_at_def)
  then show ?thesis
    by (simp only: pairingPathDeque_def pairingPathVector_def)
qed

lemma base_case_run:
  assumes "length arr \<le> 10"
  shows "\<exists>res. insertionSortVector arr 0 (int (length arr) - 1) = Some res \<and>
           sorted_wrt (\<lambda>a b. a \<le>s b) res \<and> mset res = mset arr"
proof (cases arr)
  case Nil
  then show ?thesis
    by (simp add: insertionSortVector_def insertionSort_for.simps)
next
  case (Cons s U)
  from insertionSortVector_decomp [of "[]" s U "[]"] obtain S' where
    "insertionSortVector ([] @ s # U @ []) (int (length ([] :: int32 list)))
       (int (length ([] :: int32 list) + length U)) = Some ([] @ S' @ [])"
    and "mset S' = mset (s # U)" and "sorted_wrt (\<lambda>a b. a \<le>s b) S'"
    by blast
  then show ?thesis using Cons by (intro exI [of _ S']) simp
qed

lemma mergeInsertSortVector_run:
  assumes "length arr < 2 ^ 31"
  shows "\<exists>res. mergeInsertSortVector arr = Some res \<and> sorted_wrt (\<lambda>a b. a \<le>s b) res \<and>
           mset res + (if 10 < length arr \<and> odd (length arr) \<and> last arr = - 1 then {#- 1#} else {#})
             = mset arr"
proof (cases "length arr \<le> 10")
  case True
  then show ?thesis using base_case_run [OF True]
    by (auto simp: mergeInsertSortVector_def)
next
  case False
  then have two: "2 \<le> length arr" by simp
  from pairingPathVector_run [OF two assms] obtain mainChain where
    srt: "sorted_wrt (\<lambda>a b. a \<le>s b) mainChain"
    and tot: "mset mainChain + mset (drop (2 * (length arr div 2)) arr) = mset arr"
    and run: "pairingPathVector arr (int (length arr))
       = Some (if straggler_of arr \<noteq> - 1
               then insert_at mainChain (lower_bound mainChain (straggler_of arr)) (straggler_of arr)
               else mainChain)"
    by blast
  have "sorted_wrt (\<lambda>a b. a \<le>s b)
        (if straggler_of arr \<noteq> - 1
         then insert_at mainChain (lower_bound mainChain (straggler_of arr)) (straggler_of arr)
         else mainChain)"
    using srt tot by (rule straggler_insert(1))
  moreover have "mset (if straggler_of arr \<noteq> - 1
         then insert_at mainChain (lower_bound mainChain (straggler_of arr)) (straggler_of arr)
         else mainChain) + (if odd (length arr) \<and> last arr = - 1 then {#- 1#} else {#}) = mset arr"
    using srt tot by (rule straggler_insert(2))
  ultimately show ?thesis using False run
    by (simp add: mergeInsertSortVector_def)
qed

lemma mergeInsertSortVector_basic_run:
  "\<exists>res. mergeInsertSortVector_basic arr = Some res \<and> sorted_wrt (\<lambda>a b. a \<le>s b) res \<and>
           mset res + (if 10 < length arr \<and> odd (length arr) \<and> last arr = - 1 then {#- 1#} else {#})
             = mset arr"
proof (cases "length arr \<le> 10")
  case True
  then show ?thesis using base_case_run [OF True]
    by (auto simp: mergeInsertSortVector_basic_def)
next
  case False
  then have two: "2 \<le> length arr" by simp
  from pairingPathVector_basic_run [OF two] obtain mainChain where
    srt: "sorted_wrt (\<lambda>a b. a \<le>s b) mainChain"
    and tot: "mset mainChain + mset (drop (2 * (length arr div 2)) arr) = mset arr"
    and run: "pairingPathVector_basic arr (int (length arr))
       = Some (if straggler_of arr \<noteq> - 1
               then insert_at mainChain (lower_bound mainChain (straggler_of arr)) (straggler_of arr)
               else mainChain)"
    by blast
  have "sorted_wrt (\<lambda>a b. a \<le>s b)
        (if straggler_of arr \<noteq> - 1
         then insert_at mainChain (lower_bound mainChain (straggler_of arr)) (straggler_of arr)
         else mainChain)"
    using srt tot by (rule straggler_insert(1))
  moreover have "mset (if straggler_of arr \<noteq> - 1
         then insert_at mainChain (lower_bound mainChain (straggler_of arr)) (straggler_of arr)
         else mainChain) + (if odd (length arr) \<and> last arr = - 1 then {#- 1#} else {#}) = mset arr"
    using srt tot by (rule straggler_insert(2))
  ultimately show ?thesis using False run
    by (simp add: mergeInsertSortVector_basic_def)
qed

subsection \<open>The sorter\<close>

text \<open>
  The straggler variable holds \<open>-1\<close> for "no straggler", and the last step inserts the
  straggler only when it differs from \<open>-1\<close>. An array of odd length above 10 whose last
  element is \<open>-1\<close> therefore loses that element: eleven elements go in, ten come out.
\<close>

theorem mergeInsertSortVector_permutation_counterexample:
  "mergeInsertSortVector [11, 10, 9, 8, 7, 6, 5, 4, 3, 2, - 1] = Some [2, 3, 4, 5, 6, 7, 8, 9, 10, 11] \<and>
   mset [2, 3, 4, 5, 6, 7, 8, 9, 10, 11 :: int32] \<noteq> mset [11, 10, 9, 8, 7, 6, 5, 4, 3, 2, - 1]"
proof
  show "mergeInsertSortVector [11, 10, 9, 8, 7, 6, 5, 4, 3, 2, - 1]
        = Some [2, 3, 4, 5, 6, 7, 8, 9, 10, 11]"
    by code_simp
  show "mset [2, 3, 4, 5, 6, 7, 8, 9, 10, 11 :: int32] \<noteq> mset [11, 10, 9, 8, 7, 6, 5, 4, 3, 2, - 1]"
  proof
    assume "mset [2, 3, 4, 5, 6, 7, 8, 9, 10, 11 :: int32] = mset [11, 10, 9, 8, 7, 6, 5, 4, 3, 2, - 1]"
    then have "length [2, 3, 4, 5, 6, 7, 8, 9, 10, 11 :: int32]
               = length [11, 10, 9, 8, 7, 6, 5, 4, 3, 2, - 1 :: int32]"
      by (rule mset_eq_length)
    then show False by simp
  qed
qed

text \<open>
  Claim C1, amended. For every list of 32-bit integers (of fewer than \<open>2 ^ 31\<close> elements,
  the lengths an \<open>int\<close> holds) that is not a list of odd length above 10 ending in \<open>-1\<close>,
  \<open>mergeInsertSortVector\<close> returns a permutation of its input: the same multiset, no
  element duplicated or dropped. The program only sorts positive integers, for which the
  exception never applies.
\<close>

theorem mergeInsertSortVector_permutation:
  assumes "length arr < 2 ^ 31"
    and "\<not> (10 < length arr \<and> odd (length arr) \<and> last arr = - 1)"
  shows "\<exists>res. mergeInsertSortVector arr = Some res \<and> mset res = mset arr"
  using mergeInsertSortVector_run [OF assms(1)] assms(2) by auto

theorem mergeInsertSortVector_permutation_witness:
  "length [13, 2, 11, 4, 9, 6, 7, 8, 5, 10, 3, 12, 1 :: int32] < 2 ^ 31 \<and>
   \<not> (10 < length [13, 2, 11, 4, 9, 6, 7, 8, 5, 10, 3, 12, 1 :: int32] \<and>
      odd (length [13, 2, 11, 4, 9, 6, 7, 8, 5, 10, 3, 12, 1 :: int32]) \<and>
      last [13, 2, 11, 4, 9, 6, 7, 8, 5, 10, 3, 12, 1 :: int32] = - 1) \<and>
   mergeInsertSortVector [13, 2, 11, 4, 9, 6, 7, 8, 5, 10, 3, 12, 1]
     = Some [1, 2, 3, 4, 5, 6, 7, 8, 9, 10, 11, 12, 13] \<and>
   (\<exists>res. mergeInsertSortVector [13, 2, 11, 4, 9, 6, 7, 8, 5, 10, 3, 12, 1] = Some res \<and>
      mset res = mset [13, 2, 11, 4, 9, 6, 7, 8, 5, 10, 3, 12, 1])"
proof -
  have h1: "length [13, 2, 11, 4, 9, 6, 7, 8, 5, 10, 3, 12, 1 :: int32] < 2 ^ 31" by simp
  have h2: "\<not> (10 < length [13, 2, 11, 4, 9, 6, 7, 8, 5, 10, 3, 12, 1 :: int32] \<and>
      odd (length [13, 2, 11, 4, 9, 6, 7, 8, 5, 10, 3, 12, 1 :: int32]) \<and>
      last [13, 2, 11, 4, 9, 6, 7, 8, 5, 10, 3, 12, 1 :: int32] = - 1)" by simp
  have "mergeInsertSortVector [13, 2, 11, 4, 9, 6, 7, 8, 5, 10, 3, 12, 1]
     = Some [1, 2, 3, 4, 5, 6, 7, 8, 9, 10, 11, 12, 13]"
    by code_simp
  with h1 h2 mergeInsertSortVector_permutation [OF h1 h2] show ?thesis by blast
qed

text \<open>
  Claim C2. For every list of 32-bit integers (of fewer than \<open>2 ^ 31\<close> elements),
  \<open>mergeInsertSortVector\<close> returns a list in ascending order of the signed values:
  \<open>result[i] \<le> result[i+1]\<close> for every index \<open>i\<close> before the last.
\<close>

theorem mergeInsertSortVector_ascending:
  assumes "length arr < 2 ^ 31"
  shows "\<exists>res. mergeInsertSortVector arr = Some res \<and>
           sorted_wrt (\<lambda>a b. a \<le>s b) res \<and>
           (\<forall>i. i + 1 < length res \<longrightarrow> res ! i \<le>s res ! (i + 1))"
proof -
  from mergeInsertSortVector_run [OF assms] obtain res where
    run: "mergeInsertSortVector arr = Some res" and srt: "sorted_wrt (\<lambda>a b. a \<le>s b) res"
    by blast
  have "\<forall>i. i + 1 < length res \<longrightarrow> res ! i \<le>s res ! (i + 1)"
    using srt by (simp add: sorted_wrt_iff_nth_less)
  then show ?thesis using run srt by blast
qed

theorem mergeInsertSortVector_ascending_witness:
  "length [21, 3, 17, 8, 12, 1, 19, 5, 14, 10, 2, 20, 7, 16, 4, 13, 9, 18, 6, 15, 11 :: int32] < 2 ^ 31 \<and>
   mergeInsertSortVector [21, 3, 17, 8, 12, 1, 19, 5, 14, 10, 2, 20, 7, 16, 4, 13, 9, 18, 6, 15, 11]
     = Some [1, 2, 3, 4, 5, 6, 7, 8, 9, 10, 11, 12, 13, 14, 15, 16, 17, 18, 19, 20, 21] \<and>
   (\<exists>res. mergeInsertSortVector
             [21, 3, 17, 8, 12, 1, 19, 5, 14, 10, 2, 20, 7, 16, 4, 13, 9, 18, 6, 15, 11] = Some res \<and>
      sorted_wrt (\<lambda>a b. a \<le>s b) res)"
proof -
  have h: "length [21, 3, 17, 8, 12, 1, 19, 5, 14, 10, 2, 20, 7, 16, 4, 13, 9, 18, 6, 15, 11 :: int32]
           < 2 ^ 31" by simp
  have "mergeInsertSortVector [21, 3, 17, 8, 12, 1, 19, 5, 14, 10, 2, 20, 7, 16, 4, 13, 9, 18, 6, 15, 11]
     = Some [1, 2, 3, 4, 5, 6, 7, 8, 9, 10, 11, 12, 13, 14, 15, 16, 17, 18, 19, 20, 21]"
    by code_simp
  with h mergeInsertSortVector_ascending [OF h] show ?thesis by blast
qed

text \<open>
  Claim C3. For every list of odd length \<open>n > 10\<close> (below \<open>2 ^ 31\<close>) whose last element is
  \<open>-1\<close>, \<open>mergeInsertSortVector\<close> returns a list of length \<open>n - 1\<close>: the last element is the
  straggler, it equals the value that stands for "no straggler", its insertion is
  skipped, and the result holds the other elements only.
\<close>

theorem mergeInsertSortVector_drops_sentinel_straggler:
  assumes "odd (length arr)" and "10 < length arr" and "last arr = - 1"
    and "length arr < 2 ^ 31"
  shows "\<exists>res. mergeInsertSortVector arr = Some res \<and> length res = length arr - 1 \<and>
           mset res = mset (butlast arr)"
proof -
  from mergeInsertSortVector_run [OF assms(4)] obtain res where
    run: "mergeInsertSortVector arr = Some res"
    and ms: "mset res + {#- 1#} = mset arr"
    using assms(1-3) by auto
  have ne: "arr \<noteq> []" using assms(2) by auto
  then have "mset arr = mset (butlast arr) + {#- 1#}"
    using assms(3) by (metis append_butlast_last_id mset.simps(1) mset.simps(2) mset_append
        add_mset_add_single)
  then have eq: "mset res = mset (butlast arr)" using ms by simp
  then have "length res = length (butlast arr)" by (rule mset_eq_length)
  then show ?thesis using run eq by simp
qed

theorem mergeInsertSortVector_drops_sentinel_straggler_witness:
  "odd (length [5, 1, 4, 2, 3, 9, 8, 7, 6, 10, - 1 :: int32]) \<and>
   10 < length [5, 1, 4, 2, 3, 9, 8, 7, 6, 10, - 1 :: int32] \<and>
   last [5, 1, 4, 2, 3, 9, 8, 7, 6, 10, - 1 :: int32] = - 1 \<and>
   length [5, 1, 4, 2, 3, 9, 8, 7, 6, 10, - 1 :: int32] < 2 ^ 31 \<and>
   mergeInsertSortVector [5, 1, 4, 2, 3, 9, 8, 7, 6, 10, - 1] = Some [1, 2, 3, 4, 5, 6, 7, 8, 9, 10] \<and>
   (\<exists>res. mergeInsertSortVector [5, 1, 4, 2, 3, 9, 8, 7, 6, 10, - 1] = Some res \<and>
      length res = length [5, 1, 4, 2, 3, 9, 8, 7, 6, 10, - 1 :: int32] - 1)"
proof -
  have h1: "odd (length [5, 1, 4, 2, 3, 9, 8, 7, 6, 10, - 1 :: int32])"
    and h2: "10 < length [5, 1, 4, 2, 3, 9, 8, 7, 6, 10, - 1 :: int32]"
    and h3: "last [5, 1, 4, 2, 3, 9, 8, 7, 6, 10, - 1 :: int32] = - 1"
    and h4: "length [5, 1, 4, 2, 3, 9, 8, 7, 6, 10, - 1 :: int32] < 2 ^ 31"
    by simp_all
  have "mergeInsertSortVector [5, 1, 4, 2, 3, 9, 8, 7, 6, 10, - 1]
        = Some [1, 2, 3, 4, 5, 6, 7, 8, 9, 10]"
    by code_simp
  with h1 h2 h3 h4 mergeInsertSortVector_drops_sentinel_straggler [OF h1 h2 h3 h4]
  show ?thesis by blast
qed

text \<open>
  A list of length 11 takes the pairing path; when its last element is \<open>-1\<close> the output
  has ten elements and is not a sorted copy of the input.
\<close>

theorem base_case_boundary_counterexample:
  "length [5, 1, 4, 2, 3, 9, 8, 7, 6, 11, - 1 :: int32] = 11 \<and>
   mergeInsertSortVector [5, 1, 4, 2, 3, 9, 8, 7, 6, 11, - 1] = Some [1, 2, 3, 4, 5, 6, 7, 8, 9, 11] \<and>
   length [1, 2, 3, 4, 5, 6, 7, 8, 9, 11 :: int32] = 10"
proof -
  have "mergeInsertSortVector [5, 1, 4, 2, 3, 9, 8, 7, 6, 11, - 1]
        = Some [1, 2, 3, 4, 5, 6, 7, 8, 9, 11]"
    by code_simp
  then show ?thesis by simp
qed

text \<open>
  Claim C6, amended. For every list of length at most 10, \<open>mergeInsertSortVector\<close> returns
  what \<open>insertionSortVector(arr, 0, n - 1)\<close> returns, and a list of length 0 or 1 comes
  back unchanged; every longer list, hence 11 as the smallest length, takes the pairing
  path. Lists of length 0, 1, 10 and 11 are sorted correctly (ascending, same multiset),
  except the lists of length 11 whose last element is \<open>-1\<close>.
\<close>

theorem base_case_boundary:
  "(length arr \<le> 10 \<longrightarrow>
      mergeInsertSortVector arr = insertionSortVector arr 0 (int (length arr) - 1)) \<and>
   (length arr \<le> 1 \<longrightarrow> mergeInsertSortVector arr = Some arr) \<and>
   (10 < length arr \<longrightarrow>
      mergeInsertSortVector arr = pairingPathVector arr (int (length arr))) \<and>
   (length arr \<in> {0, 1, 10, 11} \<and> \<not> (length arr = 11 \<and> last arr = - 1) \<longrightarrow>
      (\<exists>res. mergeInsertSortVector arr = Some res \<and>
         sorted_wrt (\<lambda>a b. a \<le>s b) res \<and> mset res = mset arr))"
proof (intro conjI impI)
  assume "length arr \<le> 10"
  then show "mergeInsertSortVector arr = insertionSortVector arr 0 (int (length arr) - 1)"
    by (simp add: mergeInsertSortVector_def)
next
  assume le: "length arr \<le> 1"
  then have "length arr \<le> 10" by simp
  from base_case_run [OF this] obtain res where
    run: "insertionSortVector arr 0 (int (length arr) - 1) = Some res"
    and ms: "mset res = mset arr"
    by blast
  have "res = arr"
  proof (cases arr)
    case Nil
    then show ?thesis using ms by simp
  next
    case (Cons a rest)
    then have "rest = []" using le by simp
    then show ?thesis using ms Cons by (simp add: mset_single_iff_right)
  qed
  then show "mergeInsertSortVector arr = Some arr"
    using run le by (simp add: mergeInsertSortVector_def)
next
  assume "10 < length arr"
  then show "mergeInsertSortVector arr = pairingPathVector arr (int (length arr))"
    by (simp add: mergeInsertSortVector_def)
next
  assume h: "length arr \<in> {0, 1, 10, 11} \<and> \<not> (length arr = 11 \<and> last arr = - 1)"
  then have "length arr < 2 ^ 31" by auto
  from mergeInsertSortVector_run [OF this] obtain res where
    "mergeInsertSortVector arr = Some res" "sorted_wrt (\<lambda>a b. a \<le>s b) res"
    and ms: "mset res + (if 10 < length arr \<and> odd (length arr) \<and> last arr = - 1
                        then {#- 1#} else {#}) = mset arr"
    by blast
  moreover have "\<not> (10 < length arr \<and> odd (length arr) \<and> last arr = - 1)"
    using h by auto
  ultimately show "\<exists>res. mergeInsertSortVector arr = Some res \<and>
      sorted_wrt (\<lambda>a b. a \<le>s b) res \<and> mset res = mset arr"
    by auto
qed

theorem base_case_boundary_witness:
  "length [10, 9, 8, 7, 6, 5, 4, 3, 2, 1 :: int32] \<le> 10 \<and>
   mergeInsertSortVector [10, 9, 8, 7, 6, 5, 4, 3, 2, 1]
     = insertionSortVector [10, 9, 8, 7, 6, 5, 4, 3, 2, 1] 0 9 \<and>
   mergeInsertSortVector [10, 9, 8, 7, 6, 5, 4, 3, 2, 1] = Some [1, 2, 3, 4, 5, 6, 7, 8, 9, 10] \<and>
   length [7 :: int32] \<le> 1 \<and> mergeInsertSortVector [7] = Some [7] \<and>
   10 < length [5, 1, 4, 2, 3, 9, 8, 7, 6, 11, 10 :: int32] \<and>
   mergeInsertSortVector [5, 1, 4, 2, 3, 9, 8, 7, 6, 11, 10]
     = pairingPathVector [5, 1, 4, 2, 3, 9, 8, 7, 6, 11, 10] 11 \<and>
   mergeInsertSortVector [5, 1, 4, 2, 3, 9, 8, 7, 6, 11, 10]
     = Some [1, 2, 3, 4, 5, 6, 7, 8, 9, 10, 11] \<and>
   (\<exists>res. mergeInsertSortVector [5, 1, 4, 2, 3, 9, 8, 7, 6, 11, 10] = Some res \<and>
      sorted_wrt (\<lambda>a b. a \<le>s b) res \<and> mset res = mset [5, 1, 4, 2, 3, 9, 8, 7, 6, 11, 10])"
proof -
  have a: "mergeInsertSortVector [10, 9, 8, 7, 6, 5, 4, 3, 2, 1]
           = insertionSortVector [10, 9, 8, 7, 6, 5, 4, 3, 2, 1] 0 9"
    using base_case_boundary [of "[10, 9, 8, 7, 6, 5, 4, 3, 2, 1]", THEN conjunct1] by simp
  have b: "mergeInsertSortVector [7] = Some [7]"
    using base_case_boundary [of "[7]", THEN conjunct2, THEN conjunct1] by simp
  have c: "mergeInsertSortVector [5, 1, 4, 2, 3, 9, 8, 7, 6, 11, 10]
           = pairingPathVector [5, 1, 4, 2, 3, 9, 8, 7, 6, 11, 10] 11"
    using base_case_boundary [of "[5, 1, 4, 2, 3, 9, 8, 7, 6, 11, 10]",
        THEN conjunct2, THEN conjunct2, THEN conjunct1] by simp
  have d: "\<exists>res. mergeInsertSortVector [5, 1, 4, 2, 3, 9, 8, 7, 6, 11, 10] = Some res \<and>
      sorted_wrt (\<lambda>a b. a \<le>s b) res \<and> mset res = mset [5, 1, 4, 2, 3, 9, 8, 7, 6, 11, 10]"
    using base_case_boundary [of "[5, 1, 4, 2, 3, 9, 8, 7, 6, 11, 10]",
        THEN conjunct2, THEN conjunct2, THEN conjunct2] by simp
  have e: "mergeInsertSortVector [10, 9, 8, 7, 6, 5, 4, 3, 2, 1] = Some [1, 2, 3, 4, 5, 6, 7, 8, 9, 10]"
    by code_simp
  have f: "mergeInsertSortVector [5, 1, 4, 2, 3, 9, 8, 7, 6, 11, 10]
           = Some [1, 2, 3, 4, 5, 6, 7, 8, 9, 10, 11]"
    by code_simp
  show ?thesis using a b c d e f by (simp only: length_Cons list.size) simp
qed

text \<open>
  Claim C7. For every input list (of fewer than \<open>2 ^ 31\<close> elements), the sorter of ex02,
  which inserts the \<open>pend\<close> elements in the Jacobsthal order, and the sorter of
  \<open>ex02_basic\<close>, which inserts them in index order, return the same list.
\<close>

theorem jacobsthal_order_equals_sequential:
  assumes "length arr < 2 ^ 31"
  shows "mergeInsertSortVector arr = mergeInsertSortVector_basic arr \<and>
         (\<exists>res. mergeInsertSortVector arr = Some res)"
proof -
  let ?lost = "if 10 < length arr \<and> odd (length arr) \<and> last arr = - 1 then {#- 1 :: int32#} else {#}"
  from mergeInsertSortVector_run [OF assms] obtain res where
    r1: "mergeInsertSortVector arr = Some res" and s1: "sorted_wrt (\<lambda>a b. a \<le>s b) res"
    and m1: "mset res + ?lost = mset arr"
    by blast
  from mergeInsertSortVector_basic_run [of arr] obtain res' where
    r2: "mergeInsertSortVector_basic arr = Some res'" and s2: "sorted_wrt (\<lambda>a b. a \<le>s b) res'"
    and m2: "mset res' + ?lost = mset arr"
    by blast
  have "mset res = mset res'" using m1 m2 by (metis add_right_cancel)
  then have "res = res'" using s1 s2 by (intro sorted_unique)
  then show ?thesis using r1 r2 by simp
qed

theorem jacobsthal_order_equals_sequential_witness:
  "length [21, 3, 17, 8, 12, 1, 19, 5, 14, 10, 2, 20, 7, 16, 4, 13, 9, 18, 6, 15, 11 :: int32] < 2 ^ 31 \<and>
   mergeInsertSortVector [21, 3, 17, 8, 12, 1, 19, 5, 14, 10, 2, 20, 7, 16, 4, 13, 9, 18, 6, 15, 11]
     = mergeInsertSortVector_basic
         [21, 3, 17, 8, 12, 1, 19, 5, 14, 10, 2, 20, 7, 16, 4, 13, 9, 18, 6, 15, 11] \<and>
   mergeInsertSortVector_basic [21, 3, 17, 8, 12, 1, 19, 5, 14, 10, 2, 20, 7, 16, 4, 13, 9, 18, 6, 15, 11]
     = Some [1, 2, 3, 4, 5, 6, 7, 8, 9, 10, 11, 12, 13, 14, 15, 16, 17, 18, 19, 20, 21]"
proof -
  have h: "length [21, 3, 17, 8, 12, 1, 19, 5, 14, 10, 2, 20, 7, 16, 4, 13, 9, 18, 6, 15, 11 :: int32]
           < 2 ^ 31" by simp
  have "mergeInsertSortVector_basic
          [21, 3, 17, 8, 12, 1, 19, 5, 14, 10, 2, 20, 7, 16, 4, 13, 9, 18, 6, 15, 11]
        = Some [1, 2, 3, 4, 5, 6, 7, 8, 9, 10, 11, 12, 13, 14, 15, 16, 17, 18, 19, 20, 21]"
    by code_simp
  with h jacobsthal_order_equals_sequential [OF h] show ?thesis by blast
qed

text \<open>
  Claim C8. For every input list, \<open>mergeInsertSortDeque\<close> and \<open>mergeInsertSortVector\<close>
  produce the same output sequence (and so do the two base-case insertion sorts).
\<close>

theorem deque_equals_vector:
  "mergeInsertSortDeque arr = mergeInsertSortVector arr \<and>
   insertionSortDeque arr left right = insertionSortVector arr left right"
  by (simp add: mergeInsertSortDeque_def mergeInsertSortVector_def insertionSortDeque_def
      insertionSortVector_def pairingPathDeque_eq Let_def)

theorem deque_equals_vector_witness:
  "mergeInsertSortDeque [13, 2, 11, 4, 9, 6, 7, 8, 5, 10, 3, 12, 1]
     = mergeInsertSortVector [13, 2, 11, 4, 9, 6, 7, 8, 5, 10, 3, 12, 1] \<and>
   mergeInsertSortDeque [13, 2, 11, 4, 9, 6, 7, 8, 5, 10, 3, 12, 1]
     = Some [1, 2, 3, 4, 5, 6, 7, 8, 9, 10, 11, 12, 13]"
proof -
  have "mergeInsertSortDeque [13, 2, 11, 4, 9, 6, 7, 8, 5, 10, 3, 12, 1]
        = Some [1, 2, 3, 4, 5, 6, 7, 8, 9, 10, 11, 12, 13]"
    by code_simp
  then show ?thesis
    using deque_equals_vector [of "[13, 2, 11, 4, 9, 6, 7, 8, 5, 10, 3, 12, 1]"] by simp
qed

text \<open>
  Sorting ten \<open>-1\<close> followed by \<open>-2\<close> gives \<open>-2\<close> followed by ten \<open>-1\<close>: eleven elements, the
  last one \<open>-1\<close>. Sorting that list again drops its last element.
\<close>

theorem mergeInsertSortVector_idempotent_counterexample:
  "mergeInsertSortVector [- 1, - 1, - 1, - 1, - 1, - 1, - 1, - 1, - 1, - 1, - 2]
     = Some [- 2, - 1, - 1, - 1, - 1, - 1, - 1, - 1, - 1, - 1, - 1] \<and>
   mergeInsertSortVector [- 2, - 1, - 1, - 1, - 1, - 1, - 1, - 1, - 1, - 1, - 1]
     = Some [- 2, - 1, - 1, - 1, - 1, - 1, - 1, - 1, - 1, - 1] \<and>
   [- 2, - 1, - 1, - 1, - 1, - 1, - 1, - 1, - 1, - 1 :: int32]
     \<noteq> [- 2, - 1, - 1, - 1, - 1, - 1, - 1, - 1, - 1, - 1, - 1]"
proof (intro conjI)
  show "mergeInsertSortVector [- 1, - 1, - 1, - 1, - 1, - 1, - 1, - 1, - 1, - 1, - 2]
        = Some [- 2, - 1, - 1, - 1, - 1, - 1, - 1, - 1, - 1, - 1, - 1]"
    by code_simp
  show "mergeInsertSortVector [- 2, - 1, - 1, - 1, - 1, - 1, - 1, - 1, - 1, - 1, - 1]
        = Some [- 2, - 1, - 1, - 1, - 1, - 1, - 1, - 1, - 1, - 1]"
    by code_simp
  show "[- 2, - 1, - 1, - 1, - 1, - 1, - 1, - 1, - 1, - 1 :: int32]
        \<noteq> [- 2, - 1, - 1, - 1, - 1, - 1, - 1, - 1, - 1, - 1, - 1]"
    by simp
qed

text \<open>
  Claim C9, amended. For every list \<open>L\<close> (of fewer than \<open>2 ^ 31\<close> elements),
  \<open>sort(sort(L)) = sort(L)\<close> unless \<open>sort(L)\<close> has odd length above 10 and ends in \<open>-1\<close>.
\<close>

theorem mergeInsertSortVector_idempotent:
  assumes "length arr < 2 ^ 31"
  shows "\<exists>res. mergeInsertSortVector arr = Some res \<and>
           (\<not> (10 < length res \<and> odd (length res) \<and> last res = - 1) \<longrightarrow>
              mergeInsertSortVector res = Some res)"
proof -
  from mergeInsertSortVector_run [OF assms] obtain res where
    r1: "mergeInsertSortVector arr = Some res" and s1: "sorted_wrt (\<lambda>a b. a \<le>s b) res"
    and m1: "mset res + (if 10 < length arr \<and> odd (length arr) \<and> last arr = - 1
                        then {#- 1#} else {#}) = mset arr"
    by blast
  have "size (mset res) \<le> size (mset arr)"
    using m1 by (metis le_add1 size_union)
  then have len: "length res < 2 ^ 31" using assms by simp
  have "mergeInsertSortVector res = Some res"
    if keep: "\<not> (10 < length res \<and> odd (length res) \<and> last res = - 1)"
  proof -
    from mergeInsertSortVector_run [OF len] obtain res' where
      r2: "mergeInsertSortVector res = Some res'" and s2: "sorted_wrt (\<lambda>a b. a \<le>s b) res'"
      and m2: "mset res' + (if 10 < length res \<and> odd (length res) \<and> last res = - 1
                           then {#- 1#} else {#}) = mset res"
      by blast
    have "mset res' = mset res" using m2 keep by auto
    then have "res' = res" using s2 s1 by (intro sorted_unique)
    then show ?thesis using r2 by simp
  qed
  then show ?thesis using r1 by blast
qed

theorem mergeInsertSortVector_idempotent_witness:
  "length [13, 2, 11, 4, 9, 6, 7, 8, 5, 10, 3, 12, 1 :: int32] < 2 ^ 31 \<and>
   mergeInsertSortVector [13, 2, 11, 4, 9, 6, 7, 8, 5, 10, 3, 12, 1]
     = Some [1, 2, 3, 4, 5, 6, 7, 8, 9, 10, 11, 12, 13] \<and>
   \<not> (10 < length [1, 2, 3, 4, 5, 6, 7, 8, 9, 10, 11, 12, 13 :: int32] \<and>
      odd (length [1, 2, 3, 4, 5, 6, 7, 8, 9, 10, 11, 12, 13 :: int32]) \<and>
      last [1, 2, 3, 4, 5, 6, 7, 8, 9, 10, 11, 12, 13 :: int32] = - 1) \<and>
   mergeInsertSortVector [1, 2, 3, 4, 5, 6, 7, 8, 9, 10, 11, 12, 13]
     = Some [1, 2, 3, 4, 5, 6, 7, 8, 9, 10, 11, 12, 13]"
proof -
  have h: "length [13, 2, 11, 4, 9, 6, 7, 8, 5, 10, 3, 12, 1 :: int32] < 2 ^ 31" by simp
  have k: "\<not> (10 < length [1, 2, 3, 4, 5, 6, 7, 8, 9, 10, 11, 12, 13 :: int32] \<and>
      odd (length [1, 2, 3, 4, 5, 6, 7, 8, 9, 10, 11, 12, 13 :: int32]) \<and>
      last [1, 2, 3, 4, 5, 6, 7, 8, 9, 10, 11, 12, 13 :: int32] = - 1)" by simp
  have e: "mergeInsertSortVector [13, 2, 11, 4, 9, 6, 7, 8, 5, 10, 3, 12, 1]
     = Some [1, 2, 3, 4, 5, 6, 7, 8, 9, 10, 11, 12, 13]"
    by code_simp
  from mergeInsertSortVector_idempotent [OF h] obtain res where
    "mergeInsertSortVector [13, 2, 11, 4, 9, 6, 7, 8, 5, 10, 3, 12, 1] = Some res"
    and imp: "\<not> (10 < length res \<and> odd (length res) \<and> last res = - 1) \<longrightarrow>
              mergeInsertSortVector res = Some res"
    by blast
  then have "res = [1, 2, 3, 4, 5, 6, 7, 8, 9, 10, 11, 12, 13]" using e by simp
  then have "mergeInsertSortVector [1, 2, 3, 4, 5, 6, 7, 8, 9, 10, 11, 12, 13]
     = Some [1, 2, 3, 4, 5, 6, 7, 8, 9, 10, 11, 12, 13]"
    using imp k by blast
  then show ?thesis using h e k by blast
qed

end
